theory Spec2Isabelle
  imports Main "HOL-Library.Word" "HOL-Library.Code_Target_Nat"
begin

section \<open>The binary glTF container unpacker of glTFFileLoader.ts\<close>

text \<open>
  The development embeds the container demultiplexer of
  \<^verbatim>\<open>src/loaders/src/glTF/glTFFileLoader.ts\<close>: \<^verbatim>\<open>_unpackBinaryAsync\<close>,
  \<^verbatim>\<open>_unpackBinaryV1Async\<close>, \<^verbatim>\<open>_unpackBinaryV2Async\<close>, and the version
  parser \<^verbatim>\<open>_parseVersion\<close>. Promises are sequenced: a \<^verbatim>\<open>then\<close> chain is a
  chain of state transformers on the reader, a rejected promise or a thrown
  \<^verbatim>\<open>Error\<close> is the \<open>Inl\<close> branch of a sum.
\<close>

subsection \<open>Bytes and little-endian fields\<close>

type_synonym byte = "8 word"

definition uint32_le :: "byte list \<Rightarrow> nat" where
  "uint32_le bs =
     unat (bs ! 0) + 256 * unat (bs ! 1) + 65536 * unat (bs ! 2) + 16777216 * unat (bs ! 3)"

definition le32 :: "nat \<Rightarrow> byte list" where
  "le32 n = [of_nat n, of_nat (n div 256), of_nat (n div 65536), of_nat (n div 16777216)]"

text \<open>The text that \<^verbatim>\<open>readString\<close> makes of bytes: one character for each byte.\<close>

definition decode :: "byte list \<Rightarrow> string" where
  "decode bs = map (\<lambda>b. char_of (unat b)) bs"

subsection \<open>Numbers\<close>

text \<open>
  The JavaScript numbers that occur as lengths and version numbers: an integer,
  \<^verbatim>\<open>NaN\<close> (what \<^verbatim>\<open>Number\<close> makes of a text that is not a number, line 498) or
  \<^verbatim>\<open>Infinity\<close>. Offsets, field values and requested lengths are natural
  numbers. \<^verbatim>\<open>===\<close> and \<^verbatim>\<open>!==\<close> are only ever applied with an integer on one
  side, where they are equality and inequality of these values.
\<close>

datatype js_number = Number int | NaN | Infinity

text \<open>The difference of a number and an offset (line 828).\<close>

definition minus_offset :: "js_number \<Rightarrow> nat \<Rightarrow> js_number" where
  "minus_offset x k = (case x of Number n \<Rightarrow> Number (n - int k) | NaN \<Rightarrow> NaN | Infinity \<Rightarrow> Infinity)"

subsection \<open>The byte source (IDataBuffer)\<close>

text \<open>
  \<^verbatim>\<open>IDataBuffer\<close> is imported from \<^verbatim>\<open>./dataReader\<close>; the loader builds its
  instances itself (lines 494-508 and 520-523), and those uses fix the interface:
  \<^verbatim>\<open>readAsync(byteOffset, byteLength)\<close> resolves with bytes or rejects, and
  \<^verbatim>\<open>byteLength\<close> is a number that a response may overwrite (line 498). A read is
  \<open>None\<close> when the promise rejects; when it resolves, it gives the bytes and the
  value that the buffer's \<^verbatim>\<open>byteLength\<close> holds afterwards.
\<close>

record data_buffer =
  readAsync :: "nat \<Rightarrow> nat \<Rightarrow> (byte list \<times> js_number) option"
  byteLength :: js_number

text \<open>
  Lines 520-523 and 550-553: the whole file is in an \<^verbatim>\<open>ArrayBuffer\<close>;
  \<^verbatim>\<open>new Uint8Array(arrayBuffer, byteOffset, byteLength)\<close> throws a RangeError
  when the range leaves the buffer.
\<close>

definition memory_buffer :: "byte list \<Rightarrow> data_buffer" where
  "memory_buffer ab =
     \<lparr> readAsync = (\<lambda>off len.
          if off + len \<le> length ab then Some (take len (drop off ab), Number (int (length ab))) else None),
       byteLength = Number (int (length ab)) \<rparr>"

text \<open>
  Lines 494-508: range requests. \<^verbatim>\<open>byteLength\<close> starts at 0 and every response
  sets it to what \<^verbatim>\<open>Number\<close> makes of the total in the \<^verbatim>\<open>Content-Range\<close> header
  (line 498): the total size of the resource, or \<^verbatim>\<open>NaN\<close> when the server does
  not know the total and sends \<^verbatim>\<open>*\<close> in its place. The server and the total it
  announces are parameters; the server answers a range with bytes or not at all.
\<close>

definition range_buffer :: "(nat \<Rightarrow> nat \<Rightarrow> byte list option) \<Rightarrow> js_number \<Rightarrow> data_buffer" where
  "range_buffer server announced =
     \<lparr> readAsync = (\<lambda>off len. map_option (\<lambda>d. (d, announced)) (server off len)),
       byteLength = Number 0 \<rparr>"

subsection \<open>Errors\<close>

datatype error =
    UnexpectedMagic nat
  | LengthMismatch nat js_number
  | UnsupportedVersion nat
  | UnexpectedContentFormat nat
  | FirstChunkNotJSON
  | UnexpectedJSONChunk
  | SyntaxError
  | SourceReadError
  | ReaderFault

subsection \<open>The streaming reader (DataReader)\<close>

text \<open>
  Modelled from the spec: the class \<^verbatim>\<open>DataReader\<close> of \<^verbatim>\<open>./dataReader\<close>, which
  is not among the sources. The spec (4.1, StreamingReader) gives it one growable
  window \<open>[0, loaded)\<close> over one byte source and a cursor. \<^verbatim>\<open>loadAsync(n)\<close>
  (the spec's ensureAvailable) issues one read for the missing suffix
  \<open>[loaded, offset + n)\<close> and appends what arrives; it fails with
  \<open>SourceReadError\<close> when the read fails. \<^verbatim>\<open>readUint32\<close> (little-endian) and
  \<^verbatim>\<open>readString\<close> advance the cursor and fault when the bytes they consume are
  not in the window. \<^verbatim>\<open>skipBytes\<close> consumes no byte value and only advances
  the cursor: the unpacker of the spec (4.2 b) skips a BIN payload that was never
  fetched. The field \<open>requests\<close> is a ghost log of the ranges asked of the
  byte source, in order.
\<close>

record data_reader =
  buffer :: data_buffer
  byteOffset :: nat
  window :: "byte list"
  requests :: "(nat \<times> nat) list"

definition DataReader :: "data_buffer \<Rightarrow> data_reader" where
  "DataReader b = \<lparr> buffer = b, byteOffset = 0, window = [], requests = [] \<rparr>"

type_synonym 'a step = "data_reader \<Rightarrow> (error + 'a) \<times> data_reader"

definition loadAsync :: "nat \<Rightarrow> unit step" where
  "loadAsync n r =
     (let loaded = length (window r); missing = byteOffset r + n - loaded in
      if missing = 0 then (Inr (), r)
      else
        (let r1 = r\<lparr>requests := requests r @ [(loaded, missing)]\<rparr> in
         case readAsync (buffer r) loaded missing of
           None \<Rightarrow> (Inl SourceReadError, r1)
         | Some (d, len) \<Rightarrow>
             (Inr (), r1\<lparr>buffer := (buffer r)\<lparr>byteLength := len\<rparr>, window := window r @ d\<rparr>)))"

definition readUint32 :: "nat step" where
  "readUint32 r =
     (if byteOffset r + 4 \<le> length (window r)
      then (Inr (uint32_le (take 4 (drop (byteOffset r) (window r)))),
            r\<lparr>byteOffset := byteOffset r + 4\<rparr>)
      else (Inl ReaderFault, r))"

definition readString :: "nat \<Rightarrow> string step" where
  "readString n r =
     (if byteOffset r + n \<le> length (window r)
      then (Inr (decode (take n (drop (byteOffset r) (window r)))),
            r\<lparr>byteOffset := byteOffset r + n\<rparr>)
      else (Inl ReaderFault, r))"

definition skipBytes :: "nat \<Rightarrow> unit step" where
  "skipBytes n r = (Inr (), r\<lparr>byteOffset := byteOffset r + n\<rparr>)"

subsection \<open>Sequencing\<close>

definition throw :: "error \<Rightarrow> 'a step" where
  "throw e r = (Inl e, r)"

definition resolve :: "'a \<Rightarrow> 'a step" where
  "resolve x r = (Inr x, r)"

definition bind :: "'a step \<Rightarrow> ('a \<Rightarrow> 'b step) \<Rightarrow> 'b step" where
  "bind m f r = (case m r of (Inl e, r1) \<Rightarrow> (Inl e, r1) | (Inr x, r1) \<Rightarrow> f x r1)"

text \<open>
  The chunk loop below may not settle, so the functions that reach it return an
  option; \<open>and_then\<close> chains a step into such a function.
\<close>

definition and_then ::
  "'a step \<Rightarrow> ('a \<Rightarrow> data_reader \<Rightarrow> ((error + 'b) \<times> data_reader) option) \<Rightarrow>
   data_reader \<Rightarrow> ((error + 'b) \<times> data_reader) option" where
  "and_then m f r = (case m r of (Inl e, r1) \<Rightarrow> Some (Inl e, r1) | (Inr x, r1) \<Rightarrow> f x r1)"

subsection \<open>The loader data\<close>

record 'j loader_data =
  json :: 'j
  bin :: "data_buffer option"

text \<open>
  Lines 833-836 and 876-879: the BIN blob is a view of the reader's byte source
  that adds the start offset to every read; its own \<^verbatim>\<open>byteLength\<close> is fixed.
\<close>

definition bin_view :: "data_buffer \<Rightarrow> nat \<Rightarrow> js_number \<Rightarrow> data_buffer" where
  "bin_view b startByteOffset len =
     \<lparr> readAsync = (\<lambda>off n.
          map_option (\<lambda>(d, _). (d, len)) (readAsync b (startByteOffset + off) n)),
       byteLength = len \<rparr>"

text \<open>
  Lines 762-768: \<^verbatim>\<open>JSON.parse\<close> is a parameter \<open>pj\<close>; \<open>None\<close> is the
  SyntaxError it throws.
\<close>

definition parseJson :: "(string \<Rightarrow> 'j option) \<Rightarrow> string \<Rightarrow> 'j step" where
  "parseJson pj text r = (case pj text of None \<Rightarrow> (Inl SyntaxError, r) | Some j \<Rightarrow> (Inr j, r))"

subsection \<open>The legacy layout (lines 816-840)\<close>

definition unpackBinaryV1Async :: "(string \<Rightarrow> 'j option) \<Rightarrow> 'j loader_data step" where
  "unpackBinaryV1Async pj =
     bind readUint32 (\<lambda>contentLength.
     bind readUint32 (\<lambda>contentFormat.
       if contentFormat \<noteq> 0 then throw (UnexpectedContentFormat contentFormat)
       else (\<lambda>r0.
         (let bodyLength = minus_offset (byteLength (buffer r0)) (byteOffset r0) in
          bind (readString contentLength) (\<lambda>text.
          bind (parseJson pj text) (\<lambda>j r.
            if bodyLength \<noteq> Number 0
            then (Inr \<lparr> json = j, bin = Some (bin_view (buffer r) (byteOffset r) bodyLength) \<rparr>, r)
            else (Inr \<lparr> json = j, bin = None \<rparr>, r)))) r0)))"

subsection \<open>The chunked layout (lines 842-899)\<close>

definition ChunkFormat_JSON :: nat where
  "ChunkFormat_JSON = 0x4E4F534A"

definition ChunkFormat_BIN :: nat where
  "ChunkFormat_BIN = 0x004E4942"

text \<open>
  Lines 866-895, the closure \<^verbatim>\<open>readAsync\<close>: one chunk header has been loaded;
  a BIN chunk overwrites \<^verbatim>\<open>data.bin\<close>, any other chunk but JSON is skipped, and
  the loop goes on until the cursor is at the source's length. Nothing bounds
  the number of rounds for an arbitrary byte source, so the loop is a partial
  function: \<open>None\<close> is a run that never settles.
\<close>

partial_function (option) readAsync_loop ::
  "'j loader_data \<Rightarrow> data_reader \<Rightarrow> ((error + 'j loader_data) \<times> data_reader) option" where
  "readAsync_loop data r =
     (case readUint32 r of
        (Inl e, r1) \<Rightarrow> Some (Inl e, r1)
      | (Inr chunkLength, r1) \<Rightarrow>
     (case readUint32 r1 of
        (Inl e, r2) \<Rightarrow> Some (Inl e, r2)
      | (Inr chunkFormat, r2) \<Rightarrow>
          if chunkFormat = ChunkFormat_JSON then Some (Inl UnexpectedJSONChunk, r2)
          else
            (let data1 = (if chunkFormat = ChunkFormat_BIN
                          then data\<lparr>bin := Some (bin_view (buffer r2) (byteOffset r2) (Number (int chunkLength)))\<rparr>
                          else data);
                 r3 = snd (skipBytes chunkLength r2)
             in if Number (int (byteOffset r3)) \<noteq> byteLength (buffer r3)
                then (case loadAsync 8 r3 of
                        (Inl e, r4) \<Rightarrow> Some (Inl e, r4)
                      | (Inr u, r4) \<Rightarrow> readAsync_loop data1 r4)
                else Some (Inr data1, r3))))"

definition unpackBinaryV2Async ::
  "(string \<Rightarrow> 'j option) \<Rightarrow> data_reader \<Rightarrow> ((error + 'j loader_data) \<times> data_reader) option" where
  "unpackBinaryV2Async pj =
     and_then readUint32 (\<lambda>chunkLength.
     and_then readUint32 (\<lambda>chunkFormat r0.
       if chunkFormat \<noteq> ChunkFormat_JSON then Some (Inl FirstChunkNotJSON, r0)
       else if Number (int (byteOffset r0 + chunkLength)) = byteLength (buffer r0)
       then Some (bind (loadAsync chunkLength) (\<lambda>u.
                  bind (readString chunkLength) (\<lambda>text.
                  bind (parseJson pj text) (\<lambda>j.
                    resolve \<lparr> json = j, bin = None \<rparr>))) r0)
       else and_then (loadAsync (chunkLength + 8)) (\<lambda>u.
            and_then (readString chunkLength) (\<lambda>text.
            and_then (parseJson pj text) (\<lambda>j.
              readAsync_loop \<lparr> json = j, bin = None \<rparr>))) r0))"

subsection \<open>The entry point (lines 770-814)\<close>

definition Binary_Magic :: nat where
  "Binary_Magic = 0x46546C67"

definition unpackBinaryAsync ::
  "(string \<Rightarrow> 'j option) \<Rightarrow> data_reader \<Rightarrow> ((error + 'j loader_data) \<times> data_reader) option" where
  "unpackBinaryAsync pj =
     and_then (loadAsync 20) (\<lambda>u.
     and_then readUint32 (\<lambda>magic.
       if magic \<noteq> Binary_Magic then (\<lambda>r0. Some (Inl (UnexpectedMagic magic), r0))
       else
     and_then readUint32 (\<lambda>version.
     and_then readUint32 (\<lambda>len r0.
       if Number (int len) \<noteq> byteLength (buffer r0)
       then Some (Inl (LengthMismatch len (byteLength (buffer r0))), r0)
       else if version = 1 then Some (unpackBinaryV1Async pj r0)
       else if version = 2 then unpackBinaryV2Async pj r0
       else Some (Inl (UnsupportedVersion version), r0)))))"

declare readAsync_loop.simps [code]

subsection \<open>The version parser (lines 901-918)\<close>

text \<open>
  The two fields are JavaScript numbers, the results of \<^verbatim>\<open>parseInt\<close>.
\<close>

record version_pair =
  major :: js_number
  minor :: js_number

text \<open>\<^verbatim>\<open>\d\<close> is an ASCII digit, a character code from 48 to 57.\<close>

definition isDigit :: "char \<Rightarrow> bool" where
  "isDigit c \<longleftrightarrow> 48 \<le> (of_char c :: nat) \<and> (of_char c :: nat) \<le> 57"

text \<open>
  The number value of a natural number (ECMA-262, the Number value for a
  mathematical value): the nearest double, a tie going to the even significand,
  and \<^verbatim>\<open>Infinity\<close> when the rounded value reaches \<open>2 ^ 1024\<close>. A double has a
  significand of 53 bits: \<open>halvings n\<close> is the number of low bits of \<open>n\<close> that do
  not fit, and \<open>n\<close> is rounded to a multiple of \<open>2 ^ halvings n\<close>.
\<close>

fun halvings :: "nat \<Rightarrow> nat" where
  "halvings n = (if n < 2 ^ 53 then 0 else Suc (halvings (n div 2)))"

declare halvings.simps [simp del]

definition toNumber :: "nat \<Rightarrow> js_number" where
  "toNumber n =
     (let e = halvings n; q = n div 2 ^ e; r = n mod 2 ^ e;
          m = (if 2 * r < 2 ^ e \<or> (2 * r = 2 ^ e \<and> even q) then q else q + 1)
      in if m * 2 ^ e < 2 ^ 1024 then Number (int (m * 2 ^ e)) else Infinity)"

text \<open>
  \<^verbatim>\<open>parseInt\<close> is applied to a run of digits only (a group of the match): it
  takes the decimal value of the run, digit by digit, and returns its number
  value. ECMA-262 lets an engine replace the digits after the 20th by zeros
  before it rounds; every digit is kept here.
\<close>

definition parseInt :: "string \<Rightarrow> js_number" where
  "parseInt ds = toNumber (foldl (\<lambda>acc c. 10 * acc + (of_char c - 48)) 0 ds)"

text \<open>
  The match of \<^verbatim>\<open>/^(\d+)\.(\d+)/\<close>: both groups are greedy, and a group cannot
  give a digit back, since the character after it has to be the dot, or the end
  of the match.
\<close>

definition match_version :: "string \<Rightarrow> (string \<times> string) option" where
  "match_version s =
     (let d1 = takeWhile isDigit s; rest = dropWhile isDigit s in
      if d1 = [] then None
      else (case rest of
              [] \<Rightarrow> None
            | c # rest' \<Rightarrow>
                if c \<noteq> CHR ''.'' then None
                else (let d2 = takeWhile isDigit rest' in
                      if d2 = [] then None else Some (d1, d2))))"

definition parseVersion :: "string \<Rightarrow> version_pair option" where
  "parseVersion version =
     (if version = ''1.0'' \<or> version = ''1.0.1'' then Some \<lparr> major = Number 1, minor = Number 0 \<rparr>
      else (case match_version version of
              None \<Rightarrow> None
            | Some (m1, m2) \<Rightarrow> Some \<lparr> major = parseInt m1, minor = parseInt m2 \<rparr>))"

section \<open>Containers, as the specification lays them out\<close>

text \<open>
  The wire format of the specification (section 6): a 12-byte header of magic,
  format version and total length, then the body; in the chunked layout the body
  is a sequence of chunks, each a length, a tag and a payload.
\<close>

definition header :: "nat \<Rightarrow> nat \<Rightarrow> nat \<Rightarrow> byte list" where
  "header magic version len = le32 magic @ le32 version @ le32 len"

definition container :: "nat \<Rightarrow> byte list \<Rightarrow> byte list" where
  "container version body = header Binary_Magic version (12 + length body) @ body"

definition chunk :: "nat \<Rightarrow> byte list \<Rightarrow> byte list" where
  "chunk tag payload = le32 (length payload) @ le32 tag @ payload"

text \<open>The bytes that hold a text in a file: the character codes, one byte each.\<close>

definition text_bytes :: "string \<Rightarrow> byte list" where
  "text_bytes s = map (\<lambda>c. of_nat (of_char c)) s"

fun chunks :: "(nat \<times> byte list) list \<Rightarrow> byte list" where
  "chunks [] = []"
| "chunks ((t, p) # cs) = chunk t p @ chunks cs"

text \<open>
  The chunks that may follow the JSON chunk of a well-formed container: their
  tags and lengths fit 32 bits and no tag is the JSON tag.
\<close>

fun well_formed :: "(nat \<times> byte list) list \<Rightarrow> bool" where
  "well_formed [] = True"
| "well_formed ((t, p) # cs) =
     (t < 2 ^ 32 \<and> t \<noteq> ChunkFormat_JSON \<and> length p < 2 ^ 32 \<and> well_formed cs)"

text \<open>
  A byte source serves the bytes \<open>bs\<close> when every range inside them resolves
  with those bytes and leaves \<^verbatim>\<open>byteLength\<close> at their length. The in-memory
  buffer does, and so does the range-request buffer over a server that holds
  \<open>bs\<close> and announces their length.
\<close>

definition serves :: "data_buffer \<Rightarrow> byte list \<Rightarrow> bool" where
  "serves b bs \<longleftrightarrow>
     (\<forall>off len. off + len \<le> length bs \<longrightarrow>
        readAsync b off len = Some (take len (drop off bs), Number (int (length bs))))"

text \<open>A server that holds the bytes \<open>ab\<close> and answers every range inside them.\<close>

definition file_server :: "byte list \<Rightarrow> nat \<Rightarrow> nat \<Rightarrow> byte list option" where
  "file_server ab off len = (if off + len \<le> length ab then Some (take len (drop off ab)) else None)"

text \<open>What a run settles with, and the ranges it asked of the byte source.\<close>

definition outcome :: "((error + 'a) \<times> data_reader) option \<Rightarrow> (error + 'a) option" where
  "outcome res = map_option fst res"

definition issued :: "((error + 'a) \<times> data_reader) option \<Rightarrow> (nat \<times> nat) list option" where
  "issued res = map_option (requests \<circ> snd) res"

text \<open>
  What a caller can observe of a result: the JSON value and, for the BIN blob,
  its \<^verbatim>\<open>byteLength\<close> and the bytes that reading its full range gives.
\<close>

definition blob :: "data_buffer \<Rightarrow> js_number \<times> byte list option" where
  "blob v =
     (byteLength v,
      case byteLength v of
        Number n \<Rightarrow> map_option fst (readAsync v 0 (nat n))
      | _ \<Rightarrow> None)"

definition observed ::
  "((error + 'j loader_data) \<times> data_reader) option \<Rightarrow> ('j \<times> (js_number \<times> byte list option) option) option" where
  "observed res =
     (case res of
        Some (Inr data, r) \<Rightarrow> Some (json data, map_option blob (bin data))
      | _ \<Rightarrow> None)"

text \<open>The payload of the last BIN chunk of a chunk list, if there is one.\<close>

fun bin_payload :: "(nat \<times> byte list) list \<Rightarrow> byte list option \<Rightarrow> byte list option" where
  "bin_payload [] cur = cur"
| "bin_payload ((t, p) # cs) cur = bin_payload cs (if t = ChunkFormat_BIN then Some p else cur)"

definition is_bin :: "nat \<times> byte list \<Rightarrow> bool" where
  "is_bin c \<longleftrightarrow> fst c = ChunkFormat_BIN"

text \<open>
  The strings that \<^verbatim>\<open>/^(\d+)\.(\d+)/\<close> matches, said without the matcher: a
  run of decimal digits, a dot, a run of decimal digits, and anything after
  them. The decimal value of a run is the sum of its digits, each times its
  power of ten.
\<close>

definition digit_run :: "string \<Rightarrow> bool" where
  "digit_run ds \<longleftrightarrow> ds \<noteq> [] \<and> set ds \<subseteq> set ''0123456789''"

definition digit_value :: "char \<Rightarrow> nat" where
  "digit_value c = length (takeWhile (\<lambda>d. d \<noteq> c) ''0123456789'')"

fun decimal_value :: "string \<Rightarrow> nat" where
  "decimal_value [] = 0"
| "decimal_value (c # cs) = digit_value c * 10 ^ length cs + decimal_value cs"

definition leading_version :: "string \<Rightarrow> bool" where
  "leading_version s \<longleftrightarrow> (\<exists>a b rest. s = a @ ''.'' @ b @ rest \<and> digit_run a \<and> digit_run b)"

subsection \<open>Auxiliary notions of the proofs\<close>

text \<open>
  The view that the loop holds after the chunks \<open>cs\<close>, laid out from offset
  \<open>off\<close>; the reader whose window is a prefix of the bytes its source
  serves; the reader after the 12 header bytes.
\<close>

fun last_bin :: "data_buffer \<Rightarrow> nat \<Rightarrow> (nat \<times> byte list) list \<Rightarrow> data_buffer option \<Rightarrow> data_buffer option" where
  "last_bin b off [] cur = cur"
| "last_bin b off ((t, p) # cs) cur =
     last_bin b (off + 8 + length p) cs
       (if t = ChunkFormat_BIN then Some (bin_view b (off + 8) (Number (int (length p)))) else cur)"

definition record_bin :: "data_buffer \<Rightarrow> nat \<Rightarrow> nat \<Rightarrow> nat \<Rightarrow> 'j loader_data \<Rightarrow> 'j loader_data" where
  "record_bin b t start len data =
     (if t = ChunkFormat_BIN then data\<lparr>bin := Some (bin_view b start (Number (int len)))\<rparr> else data)"

definition synced :: "data_buffer \<Rightarrow> byte list \<Rightarrow> data_reader \<Rightarrow> bool" where
  "synced b bs r \<longleftrightarrow>
     buffer r = b \<and> byteLength b = Number (int (length bs)) \<and> serves b bs \<and>
     length (window r) \<le> length bs \<and> window r = take (length (window r)) bs"

definition loaded_header :: "data_buffer \<Rightarrow> byte list \<Rightarrow> data_reader" where
  "loaded_header b bs =
     \<lparr> buffer = b\<lparr>byteLength := Number (int (length bs))\<rparr>, byteOffset = 12, window = take 20 bs,
       requests = [(0, 20)] \<rparr>"

subsection \<open>Sample containers\<close>

text \<open>
  Small containers on which the theorems below are instantiated. The JSON text
  is \<^verbatim>\<open>{}\<close>, the bytes 7B 7D, or \<^verbatim>\<open>[1,2]\<close>; tag 7 stands for an unknown
  chunk tag.
\<close>

definition glb_json_bin :: "byte list" where
  "glb_json_bin = container 2 (chunk ChunkFormat_JSON [0x7B, 0x7D] @ chunk ChunkFormat_BIN [1, 2, 3])"

definition glb_json_only :: "byte list" where
  "glb_json_only = container 2 (chunk ChunkFormat_JSON [0x7B, 0x7D])"

definition glb_array_only :: "byte list" where
  "glb_array_only = container 2 (chunk ChunkFormat_JSON (text_bytes ''[1,2]''))"

definition glb_extra_chunk :: "byte list" where
  "glb_extra_chunk =
     container 2 (chunk ChunkFormat_JSON [0x7B, 0x7D] @ chunks [(7, [9, 9]), (ChunkFormat_BIN, [1, 2, 3])])"

definition glb_two_bins :: "byte list" where
  "glb_two_bins =
     container 2 (chunk ChunkFormat_JSON [0x7B, 0x7D] @
       chunks ([(ChunkFormat_BIN, [1, 2, 3])] @ [(ChunkFormat_BIN, [4, 5])] @ [(7, [9])]))"

definition glb_second_json :: "byte list" where
  "glb_second_json =
     container 2 (chunk ChunkFormat_JSON [0x7B, 0x7D] @ chunks [(ChunkFormat_BIN, [1, 2, 3])] @
       le32 2 @ le32 ChunkFormat_JSON @ [0x7B, 0x7D])"

text \<open>
  A chunked container whose magic is overwritten with zeros, one that declares
  format version 3, and one that declares a length of 23 for its 22 bytes.
\<close>

definition glb_bad_magic :: "byte list" where
  "glb_bad_magic = header 0 2 22 @ chunk ChunkFormat_JSON [0x7B, 0x7D]"

definition glb_version_3 :: "byte list" where
  "glb_version_3 = container 3 (chunk ChunkFormat_JSON [0x7B, 0x7D])"

definition glb_wrong_length :: "byte list" where
  "glb_wrong_length = header Binary_Magic 2 23 @ chunk ChunkFormat_JSON [0x7B, 0x7D]"

text \<open>A file of 12 bytes: the header alone, declaring a length of 13.\<close>

definition glb_header_only :: "byte list" where
  "glb_header_only = header Binary_Magic 2 13"

text \<open>
  Legacy containers: content length 2, content format 0 (JSON), the JSON text,
  and then three trailing bytes, or none.
\<close>

definition glb_legacy :: "byte list" where
  "glb_legacy = container 1 (le32 2 @ le32 0 @ [0x7B, 0x7D] @ [1, 2, 3])"

definition glb_legacy_no_body :: "byte list" where
  "glb_legacy_no_body = container 1 (le32 2 @ le32 0 @ [0x7B, 0x7D])"

text \<open>
  The reader of an in-memory file that has the whole file in its window and has
  consumed the 12 header bytes: the state in which the legacy path starts when
  every byte it reads is at hand.
\<close>

definition materialized :: "byte list \<Rightarrow> data_reader" where
  "materialized ab =
     \<lparr> buffer = memory_buffer ab, byteOffset = 12, window = ab, requests = [(0, length ab)] \<rparr>"

section \<open>Properties\<close>

subsection \<open>Fields and reader steps\<close>

lemma length_le32 [simp]: "length (le32 n) = 4"
  by (simp add: le32_def)

lemma length_chunk [simp]: "length (chunk t p) = 8 + length p"
  by (simp add: chunk_def)

lemma le32_arith:
  fixes n :: nat
  shows "n mod 256 + 256 * (n div 256 mod 256) + 65536 * (n div 65536 mod 256) +
     16777216 * (n div 16777216) = n"
proof -
  define m1 where "m1 = n div 256"
  define m2 where "m2 = m1 div 256"
  define m3 where "m3 = m2 div 256"
  have e2: "n div 65536 = m2"
    unfolding m2_def m1_def by (simp add: div_mult2_eq)
  have e3: "n div 16777216 = m3"
    unfolding m3_def m2_def m1_def by (simp add: div_mult2_eq)
  have d1: "n = n mod 256 + 256 * m1" unfolding m1_def by simp
  have d2: "m1 = m1 mod 256 + 256 * m2" unfolding m2_def by simp
  have d3: "m2 = m2 mod 256 + 256 * m3" unfolding m3_def by simp
  have "n mod 256 + 256 * (m1 mod 256) + 65536 * (m2 mod 256) + 16777216 * m3 = n"
    using d1 d2 d3 by linarith
  then show ?thesis
    unfolding e2 e3 m1_def[symmetric] .
qed

lemma uint32_le_le32: "n < 2 ^ 32 \<Longrightarrow> uint32_le (le32 n) = n"
  by (simp add: uint32_le_def le32_def unat_of_nat le32_arith)

lemma slice_take: "off + n \<le> k \<Longrightarrow> take n (drop off (take k bs)) = take n (drop off bs)"
  by (simp add: drop_take min_def)

lemma readUint32_synced:
  assumes "synced b bs r" and "byteOffset r + 4 \<le> length (window r)"
  shows "readUint32 r =
         (Inr (uint32_le (take 4 (drop (byteOffset r) bs))), r\<lparr>byteOffset := byteOffset r + 4\<rparr>)"
proof -
  have w: "window r = take (length (window r)) bs"
    using assms(1) by (simp add: synced_def)
  have "take 4 (drop (byteOffset r) (window r)) = take 4 (drop (byteOffset r) bs)"
    using slice_take [OF assms(2), of bs] w by simp
  then show ?thesis
    using assms(2) by (simp add: readUint32_def)
qed

lemma readString_synced:
  assumes "synced b bs r" and "byteOffset r + n \<le> length (window r)"
  shows "readString n r =
         (Inr (decode (take n (drop (byteOffset r) bs))), r\<lparr>byteOffset := byteOffset r + n\<rparr>)"
proof -
  have w: "window r = take (length (window r)) bs"
    using assms(1) by (simp add: synced_def)
  have "take n (drop (byteOffset r) (window r)) = take n (drop (byteOffset r) bs)"
    using slice_take [OF assms(2), of bs] w by simp
  then show ?thesis
    using assms(2) by (simp add: readString_def)
qed

lemma synced_byteOffset [simp]: "synced b bs (r\<lparr>byteOffset := k\<rparr>) = synced b bs r"
  by (simp add: synced_def)

lemma loadAsync_noop:
  "byteOffset r + n \<le> length (window r) \<Longrightarrow> loadAsync n r = (Inr (), r)"
  by (simp add: loadAsync_def)

lemma loadAsync_read:
  assumes "length (window r) < byteOffset r + n"
    and "readAsync (buffer r) (length (window r)) (byteOffset r + n - length (window r)) = Some (d, len)"
  shows "loadAsync n r =
         (Inr (), r\<lparr>requests := requests r @ [(length (window r), byteOffset r + n - length (window r))],
                      buffer := (buffer r)\<lparr>byteLength := len\<rparr>, window := window r @ d\<rparr>)"
  using assms by (simp add: loadAsync_def Let_def)

lemma loadAsync_synced:
  assumes "synced b bs r" and "byteOffset r + n \<le> length bs"
  shows "\<exists>r'. loadAsync n r = (Inr (), r') \<and> synced b bs r' \<and> byteOffset r' = byteOffset r
            \<and> byteOffset r + n \<le> length (window r')"
proof (cases "byteOffset r + n \<le> length (window r)")
  case True
  then show ?thesis using assms(1) by (simp add: loadAsync_noop)
next
  case False
  define loaded where "loaded = length (window r)"
  define missing where "missing = byteOffset r + n - loaded"
  have m: "loaded + missing = byteOffset r + n" "loaded < byteOffset r + n"
    using False by (simp_all add: missing_def loaded_def)
  have b: "buffer r = b" "byteLength b = Number (int (length bs))" "serves b bs" "window r = take loaded bs"
    using assms(1) by (simp_all add: synced_def loaded_def)
  have "readAsync b loaded missing = Some (take missing (drop loaded bs), Number (int (length bs)))"
    using b(3) m(1) assms(2) by (simp add: serves_def)
  then have rd: "readAsync (buffer r) (length (window r)) (byteOffset r + n - length (window r))
      = Some (take missing (drop loaded bs), Number (int (length bs)))"
    by (simp add: b(1) loaded_def missing_def)
  have w: "window r @ take missing (drop loaded bs) = take (loaded + missing) bs"
    by (subst b(4)) (simp add: take_add)
  have bb: "(buffer r)\<lparr>byteLength := Number (int (length bs))\<rparr> = buffer r"
    using b(1,2) by simp
  define r' where "r' = r\<lparr>requests := requests r @ [(length (window r), byteOffset r + n - length (window r))],
                      buffer := (buffer r)\<lparr>byteLength := Number (int (length bs))\<rparr>, window := window r @ take missing (drop loaded bs)\<rparr>"
  have "loadAsync n r = (Inr (), r')"
    unfolding r'_def using m(2) rd by (intro loadAsync_read) (simp_all add: loaded_def)
  moreover have "synced b bs r'"
    unfolding r'_def using b(1,2,3) m(1) assms(2) by (simp add: synced_def bb w)
  moreover have "byteOffset r' = byteOffset r" "byteOffset r + n \<le> length (window r')"
    unfolding r'_def using m(1) assms(2) by (simp_all add: w)
  ultimately show ?thesis by blast
qed

lemma loop_header:
  assumes s: "synced b bs r" and w: "byteOffset r + 8 \<le> length (window r)"
    and bs: "bs = pre @ le32 n @ le32 t @ post" and off: "byteOffset r = length pre"
    and t: "t < 2 ^ 32" and n: "n < 2 ^ 32"
  shows "readUint32 r = (Inr n, r\<lparr>byteOffset := length pre + 4\<rparr>)"
    and "readUint32 (r\<lparr>byteOffset := length pre + 4\<rparr>) = (Inr t, r\<lparr>byteOffset := length pre + 8\<rparr>)"
proof -
  have h1: "take 4 (drop (length pre) bs) = le32 n"
    by (simp add: bs)
  have h2: "take 4 (drop (length pre + 4) bs) = le32 t"
    by (simp add: bs)
  show "readUint32 r = (Inr n, r\<lparr>byteOffset := length pre + 4\<rparr>)"
    using readUint32_synced [OF s] w off h1 uint32_le_le32 [OF n] by simp
  have "synced b bs (r\<lparr>byteOffset := length pre + 4\<rparr>)"
    using s by simp
  from readUint32_synced [OF this] w off h2 uint32_le_le32 [OF t]
  show "readUint32 (r\<lparr>byteOffset := length pre + 4\<rparr>) = (Inr t, r\<lparr>byteOffset := length pre + 8\<rparr>)"
    by simp
qed

lemma loop_json:
  assumes s: "synced b bs r" and w: "byteOffset r + 8 \<le> length (window r)"
    and bs: "bs = pre @ le32 n @ le32 ChunkFormat_JSON @ post" and off: "byteOffset r = length pre"
    and n: "n < 2 ^ 32"
  shows "readAsync_loop data r = Some (Inl UnexpectedJSONChunk, r\<lparr>byteOffset := length pre + 8\<rparr>)"
proof -
  have t: "ChunkFormat_JSON < 2 ^ 32"
    by (simp add: ChunkFormat_JSON_def)
  note h = loop_header [OF s w bs off t n]
  show ?thesis
    by (subst readAsync_loop.simps) (simp add: h)
qed

lemma loop_last:
  assumes s: "synced b bs r" and w: "byteOffset r + 8 \<le> length (window r)"
    and bs: "bs = pre @ chunk t p" and off: "byteOffset r = length pre"
    and t: "t < 2 ^ 32" "t \<noteq> ChunkFormat_JSON" and p: "length p < 2 ^ 32"
  shows "readAsync_loop data r =
         Some (Inr (record_bin b t (length pre + 8) (length p) data), r\<lparr>byteOffset := length bs\<rparr>)"
proof -
  have bs': "bs = pre @ le32 (length p) @ le32 t @ p"
    by (simp add: bs chunk_def)
  note h = loop_header [OF s w bs' off t(1) p]
  have b: "buffer r = b" "byteLength b = Number (int (length bs))"
    using s by (simp_all add: synced_def)
  have len: "length bs = length pre + 8 + length p"
    by (simp add: bs)
  show ?thesis
    by (subst readAsync_loop.simps) (simp add: h t(2) skipBytes_def b len record_bin_def)
qed

lemma loop_next:
  assumes s: "synced b bs r" and w: "byteOffset r + 8 \<le> length (window r)"
    and bs: "bs = pre @ chunk t p @ post" and off: "byteOffset r = length pre"
    and t: "t < 2 ^ 32" "t \<noteq> ChunkFormat_JSON" and p: "length p < 2 ^ 32"
    and post: "8 \<le> length post"
  shows "\<exists>r'. readAsync_loop data r = readAsync_loop (record_bin b t (length pre + 8) (length p) data) r'
            \<and> synced b bs r' \<and> byteOffset r' = length pre + 8 + length p
            \<and> byteOffset r' + 8 \<le> length (window r')"
proof -
  have bs': "bs = pre @ le32 (length p) @ le32 t @ (p @ post)"
    by (simp add: bs chunk_def)
  note h = loop_header [OF s w bs' off t(1) p]
  have b: "buffer r = b" "byteLength b = Number (int (length bs))"
    using s by (simp_all add: synced_def)
  have len: "length bs = length pre + 8 + length p + length post"
    by (simp add: bs)
  define r3 where "r3 = r\<lparr>byteOffset := length pre + 8 + length p\<rparr>"
  have s3: "synced b bs r3"
    using s by (simp add: r3_def)
  have "byteOffset r3 + 8 \<le> length bs"
    using post by (simp add: r3_def len)
  from loadAsync_synced [OF s3 this]
  obtain r' where r': "loadAsync 8 r3 = (Inr (), r')" "synced b bs r'"
    "byteOffset r' = byteOffset r3" "byteOffset r3 + 8 \<le> length (window r')"
    by blast
  have "length pre + 8 + length p \<noteq> length bs"
    using post by (auto simp: len)
  then have ne: "int (length pre) + 8 + int (length p) \<noteq> int (length bs)"
    by linarith
  have "readAsync_loop data r = readAsync_loop (record_bin b t (length pre + 8) (length p) data) r'"
    by (subst readAsync_loop.simps)
       (simp add: h t(2) skipBytes_def b ne record_bin_def r3_def[symmetric] r'(1) Let_def)
  then show ?thesis
    using r'(2,3,4) by (auto simp: r3_def)
qed

lemma loop_skip:
  assumes "synced b bs r" and "byteOffset r + 8 \<le> length (window r)"
    and "bs = pre @ chunks cs @ post" and "byteOffset r = length pre"
    and "well_formed cs" and "8 \<le> length post"
  shows "\<exists>r'. readAsync_loop data r =
              readAsync_loop (data\<lparr>bin := last_bin b (length pre) cs (bin data)\<rparr>) r'
            \<and> synced b bs r' \<and> byteOffset r' = length pre + length (chunks cs)
            \<and> byteOffset r' + 8 \<le> length (window r')"
  using assms
proof (induction cs arbitrary: r pre data)
  case Nil
  then show ?case by auto
next
  case (Cons c cs)
  obtain t p where c: "c = (t, p)" by (cases c)
  have wf: "t < 2 ^ 32" "t \<noteq> ChunkFormat_JSON" "length p < 2 ^ 32" "well_formed cs"
    using Cons.prems(5) by (simp_all add: c)
  have bs1: "bs = pre @ chunk t p @ (chunks cs @ post)"
    using Cons.prems(3) by (simp add: c)
  have "8 \<le> length (chunks cs @ post)"
    using Cons.prems(6) by simp
  from loop_next [OF Cons.prems(1,2) bs1 Cons.prems(4) wf(1,2,3) this, of data]
  obtain r1 where r1:
    "readAsync_loop data r = readAsync_loop (record_bin b t (length pre + 8) (length p) data) r1"
    "synced b bs r1" "byteOffset r1 = length pre + 8 + length p"
    "byteOffset r1 + 8 \<le> length (window r1)"
    by blast
  have bs2: "bs = (pre @ chunk t p) @ chunks cs @ post"
    using bs1 by simp
  have off: "byteOffset r1 = length (pre @ chunk t p)"
    using r1(3) by simp
  from Cons.IH [OF r1(2) r1(4) bs2 off wf(4) Cons.prems(6),
      of "record_bin b t (length pre + 8) (length p) data"]
  obtain r' where r':
    "readAsync_loop (record_bin b t (length pre + 8) (length p) data) r1 =
     readAsync_loop
       ((record_bin b t (length pre + 8) (length p) data)
          \<lparr>bin := last_bin b (length (pre @ chunk t p)) cs
                   (bin (record_bin b t (length pre + 8) (length p) data))\<rparr>) r'"
    "synced b bs r'" "byteOffset r' = length (pre @ chunk t p) + length (chunks cs)"
    "byteOffset r' + 8 \<le> length (window r')"
    by blast
  have d: "(record_bin b t (length pre + 8) (length p) data)
          \<lparr>bin := last_bin b (length (pre @ chunk t p)) cs
                   (bin (record_bin b t (length pre + 8) (length p) data))\<rparr>
        = data\<lparr>bin := last_bin b (length pre) (c # cs) (bin data)\<rparr>"
    by (simp add: c record_bin_def add.assoc)
  show ?case
    using r1(1) r'(1) r'(2,3,4) unfolding d by (auto simp: c)
qed

lemma length_header [simp]: "length (header m v n) = 12"
  by (simp add: header_def)

lemma length_container [simp]: "length (container v body) = 12 + length body"
  by (simp add: container_def)

lemma serves_sized: "serves b bs \<Longrightarrow> serves (b\<lparr>byteLength := n\<rparr>) bs"
  by (simp add: serves_def)

lemma bin_view_sized [simp]: "bin_view (b\<lparr>byteLength := n\<rparr>) start len = bin_view b start len"
  by (simp add: bin_view_def)

lemma last_bin_sized [simp]: "last_bin (b\<lparr>byteLength := n\<rparr>) off cs cur = last_bin b off cs cur"
  by (induction cs arbitrary: off cur) auto

lemma synced_loaded_header:
  assumes "serves b bs" and "20 \<le> length bs"
  shows "synced (b\<lparr>byteLength := Number (int (length bs))\<rparr>) bs (loaded_header b bs)"
  using assms by (simp add: synced_def loaded_header_def serves_sized)

lemma front:
  assumes sv: "serves b bs" and bs: "bs = container v body" and body: "8 \<le> length body"
    and v: "v < 2 ^ 32" and len: "length bs < 2 ^ 32"
  shows "unpackBinaryAsync pj (DataReader b) =
         (if v = 1 then Some (unpackBinaryV1Async pj (loaded_header b bs))
          else if v = 2 then unpackBinaryV2Async pj (loaded_header b bs)
          else Some (Inl (UnsupportedVersion v), loaded_header b bs))"
proof -
  have l20: "20 \<le> length bs"
    using body by (simp add: bs)
  have rd: "readAsync b 0 20 = Some (take 20 bs, Number (int (length bs)))"
    using sv l20 by (simp add: serves_def)
  define r0 where "r0 = \<lparr> buffer = b\<lparr>byteLength := Number (int (length bs))\<rparr>, byteOffset = 0, window = take 20 bs,
       requests = [(0, 20)] \<rparr>"
  have ld: "loadAsync 20 (DataReader b) = (Inr (), r0)"
    using rd by (simp add: loadAsync_def DataReader_def r0_def)
  have s0: "synced (b\<lparr>byteLength := Number (int (length bs))\<rparr>) bs r0"
    using sv l20 by (simp add: synced_def r0_def serves_sized)
  have m: "Binary_Magic < 2 ^ 32"
    by (simp add: Binary_Magic_def)
  have bl: "12 + length body = length bs"
    by (simp add: bs)
  have "take 4 (drop 0 (container v body)) = le32 Binary_Magic"
    and "take 4 (drop 4 (container v body)) = le32 v"
    and "take 4 (drop 8 (container v body)) = le32 (length (container v body))"
    by (simp_all add: container_def header_def)
  then have h1: "take 4 (drop 0 bs) = le32 Binary_Magic"
    and h2: "take 4 (drop 4 bs) = le32 v"
    and h3: "take 4 (drop 8 bs) = le32 (length bs)"
    unfolding bs by blast+
  have w: "length (window r0) = 20"
    using l20 by (simp add: r0_def)
  have s4: "synced (b\<lparr>byteLength := Number (int (length bs))\<rparr>) bs (r0\<lparr>byteOffset := 4\<rparr>)"
    and s8: "synced (b\<lparr>byteLength := Number (int (length bs))\<rparr>) bs (r0\<lparr>byteOffset := 8\<rparr>)"
    using s0 by simp_all
  have o0: "byteOffset r0 = 0"
    by (simp add: r0_def)
  have u1: "readUint32 r0 = (Inr Binary_Magic, r0\<lparr>byteOffset := 4\<rparr>)"
    using readUint32_synced [OF s0] w h1 uint32_le_le32 [OF m] o0 by simp
  have u2: "readUint32 (r0\<lparr>byteOffset := 4\<rparr>) = (Inr v, r0\<lparr>byteOffset := 8\<rparr>)"
    using readUint32_synced [OF s4] w h2 uint32_le_le32 [OF v] by simp
  have u3: "readUint32 (r0\<lparr>byteOffset := 8\<rparr>) = (Inr (length bs), r0\<lparr>byteOffset := 12\<rparr>)"
    using readUint32_synced [OF s8] w h3 uint32_le_le32 [OF len] by simp
  have r12: "r0\<lparr>byteOffset := 12\<rparr> = loaded_header b bs"
    by (simp add: r0_def loaded_header_def)
  show ?thesis
    by (simp add: unpackBinaryAsync_def and_then_def ld u1 u2 u3 r12)
       (simp add: loaded_header_def)
qed

lemma v2_header:
  assumes sv: "serves b bs" and bs: "bs = container 2 (chunk ChunkFormat_JSON jt @ rest)"
    and len: "length bs < 2 ^ 32"
  shows "unpackBinaryV2Async pj (loaded_header b bs) =
         (let r0 = (loaded_header b bs)\<lparr>byteOffset := 20\<rparr> in
          if 20 + length jt = length bs
          then Some (bind (loadAsync (length jt)) (\<lambda>u.
                  bind (readString (length jt)) (\<lambda>text.
                  bind (parseJson pj text) (\<lambda>j.
                    resolve \<lparr> json = j, bin = None \<rparr>))) r0)
          else and_then (loadAsync (length jt + 8)) (\<lambda>u.
            and_then (readString (length jt)) (\<lambda>text.
            and_then (parseJson pj text) (\<lambda>j.
              readAsync_loop \<lparr> json = j, bin = None \<rparr>))) r0)"
proof -
  have l20: "20 \<le> length bs"
    by (simp add: bs)
  note s = synced_loaded_header [OF sv l20]
  have w: "byteOffset (loaded_header b bs) + 8 \<le> length (window (loaded_header b bs))"
    using l20 by (simp add: loaded_header_def)
  have bs': "bs = header Binary_Magic 2 (12 + length (chunk ChunkFormat_JSON jt @ rest))
       @ le32 (length jt) @ le32 ChunkFormat_JSON @ (jt @ rest)"
    by (simp add: bs container_def chunk_def)
  have off: "byteOffset (loaded_header b bs) = length (header Binary_Magic 2 (12 + length (chunk ChunkFormat_JSON jt @ rest)))"
    by (simp add: loaded_header_def)
  have t: "ChunkFormat_JSON < 2 ^ 32"
    by (simp add: ChunkFormat_JSON_def)
  have n: "length jt < 2 ^ 32"
    using len by (simp add: bs)
  note h = loop_header [OF s w bs' off t n, simplified]
  have bl: "byteLength (buffer (loaded_header b bs)) = Number (int (length bs))"
    by (simp add: loaded_header_def)
  show ?thesis
    by (simp add: unpackBinaryV2Async_def and_then_def h bl Let_def)
qed

lemma v2_json_only:
  assumes sv: "serves b bs" and bs: "bs = container 2 (chunk ChunkFormat_JSON jt)"
    and len: "length bs < 2 ^ 32" and pj: "pj (decode jt) = Some j"
  shows "unpackBinaryV2Async pj (loaded_header b bs) =
         Some (Inr \<lparr> json = j, bin = None \<rparr>,
               \<lparr> buffer = b\<lparr>byteLength := Number (int (length bs))\<rparr>, byteOffset = length bs, window = bs,
                 requests = (if jt = [] then [(0, 20)] else [(0, 20), (20, length jt)]) \<rparr>)"
proof -
  have bs0: "bs = container 2 (chunk ChunkFormat_JSON jt @ [])"
    by (simp add: bs)
  have lb: "length bs = 20 + length jt"
    by (simp add: bs)
  have split: "take 20 bs @ jt = bs" "drop 20 bs = jt"
    by (simp_all add: bs container_def chunk_def header_def)
  define r0 where "r0 = (loaded_header b bs)\<lparr>byteOffset := 20\<rparr>"
  define rA where "rA = \<lparr> buffer = b\<lparr>byteLength := Number (int (length bs))\<rparr>, byteOffset = 20, window = bs,
                 requests = (if jt = [] then [(0, 20)] else [(0, 20), (20, length jt)]) \<rparr>"
  have w0: "length (window r0) = 20" "byteOffset r0 = 20" "window r0 = take 20 bs"
    "buffer r0 = b\<lparr>byteLength := Number (int (length bs))\<rparr>" "requests r0 = [(0, 20)]"
    using lb by (simp_all add: r0_def loaded_header_def)
  have ld: "loadAsync (length jt) r0 = (Inr (), rA)"
  proof (cases "jt = []")
    case True
    then have "take 20 bs = bs"
      using split(1) by simp
    then have "r0 = rA"
      using True by (simp add: r0_def rA_def loaded_header_def)
    moreover have "loadAsync (length jt) r0 = (Inr (), r0)"
      using True w0(1,2) by (intro loadAsync_noop) simp
    ultimately show ?thesis by simp
  next
    case False
    have "readAsync b 20 (length jt) = Some (take (length jt) (drop 20 bs), Number (int (length bs)))"
      using sv lb by (simp add: serves_def)
    then have rd: "readAsync (buffer r0) (length (window r0)) (byteOffset r0 + length jt - length (window r0))
        = Some (jt, Number (int (length bs)))"
      using split(2) by (simp add: w0(1,2,4))
    have lt: "length (window r0) < byteOffset r0 + length jt"
      using False by (simp add: w0(1,2))
    have mn: "min (length bs) 20 = 20"
      using lb by simp
    show ?thesis
      unfolding loadAsync_read [OF lt rd]
      using False split(1) by (simp add: r0_def loaded_header_def rA_def mn)
  qed
  have rs: "readString (length jt) rA = (Inr (decode jt), rA\<lparr>byteOffset := length bs\<rparr>)"
    using split(2) lb by (simp add: readString_def rA_def)
  show ?thesis
    unfolding v2_header [OF sv bs0 len]
    by (simp add: lb[symmetric] r0_def[symmetric] bind_def ld rs parseJson_def pj resolve_def)
       (simp add: rA_def lb)
qed

lemma v2_more_chunks:
  assumes sv: "serves b bs" and bs: "bs = container 2 (chunk ChunkFormat_JSON jt @ rest)"
    and len: "length bs < 2 ^ 32" and pj: "pj (decode jt) = Some j" and rest: "8 \<le> length rest"
  shows "\<exists>r1. unpackBinaryV2Async pj (loaded_header b bs) =
              readAsync_loop \<lparr> json = j, bin = None \<rparr> r1
          \<and> synced (b\<lparr>byteLength := Number (int (length bs))\<rparr>) bs r1 \<and> byteOffset r1 = 20 + length jt
          \<and> byteOffset r1 + 8 \<le> length (window r1)"
proof -
  have lb: "length bs = 20 + length jt + length rest"
    by (simp add: bs)
  have l20: "20 \<le> length bs"
    by (simp add: bs)
  define r0 where "r0 = (loaded_header b bs)\<lparr>byteOffset := 20\<rparr>"
  have s0: "synced (b\<lparr>byteLength := Number (int (length bs))\<rparr>) bs r0"
    using synced_loaded_header [OF sv l20] by (simp add: r0_def)
  have "byteOffset r0 + (length jt + 8) \<le> length bs"
    using rest by (simp add: r0_def lb)
  from loadAsync_synced [OF s0 this]
  obtain r' where r': "loadAsync (length jt + 8) r0 = (Inr (), r')"
    "synced (b\<lparr>byteLength := Number (int (length bs))\<rparr>) bs r'" "byteOffset r' = byteOffset r0"
    "byteOffset r0 + (length jt + 8) \<le> length (window r')"
    by blast
  have o: "byteOffset r' = 20"
    using r'(3) by (simp add: r0_def)
  have jt: "take (length jt) (drop 20 bs) = jt"
    by (simp add: bs container_def chunk_def header_def)
  have "byteOffset r' + length jt \<le> length (window r')"
    using r'(4) o by (simp add: r0_def)
  from readString_synced [OF r'(2) this]
  have rs: "readString (length jt) r' = (Inr (decode jt), r'\<lparr>byteOffset := 20 + length jt\<rparr>)"
    by (simp add: o jt)
  have ne: "20 + length jt \<noteq> length bs"
    using rest by (auto simp: lb)
  have "unpackBinaryV2Async pj (loaded_header b bs) =
        readAsync_loop \<lparr> json = j, bin = None \<rparr> (r'\<lparr>byteOffset := 20 + length jt\<rparr>)"
    unfolding v2_header [OF sv bs len]
    by (simp add: ne r0_def[symmetric] and_then_def r'(1) rs parseJson_def pj)
  moreover have "synced (b\<lparr>byteLength := Number (int (length bs))\<rparr>) bs (r'\<lparr>byteOffset := 20 + length jt\<rparr>)"
    using r'(2) by simp
  moreover have "byteOffset (r'\<lparr>byteOffset := 20 + length jt\<rparr>) + 8
      \<le> length (window (r'\<lparr>byteOffset := 20 + length jt\<rparr>))"
    using r'(4) by (simp add: r0_def)
  ultimately show ?thesis
    by (intro exI [of _ "r'\<lparr>byteOffset := 20 + length jt\<rparr>"]) simp
qed

lemma chunks_append [simp]: "chunks (xs @ ys) = chunks xs @ chunks ys"
  by (induction xs) auto

lemma well_formed_append [simp]: "well_formed (xs @ ys) \<longleftrightarrow> well_formed xs \<and> well_formed ys"
  by (induction xs) auto

lemma last_bin_append:
  "last_bin b off (xs @ ys) cur = last_bin b (off + length (chunks xs)) ys (last_bin b off xs cur)"
  by (induction xs arbitrary: off cur) (auto simp: add.assoc)

lemma v2_run:
  assumes sv: "serves b bs" and bs: "bs = container 2 (chunk ChunkFormat_JSON jt @ chunks cs)"
    and cs: "cs \<noteq> []" "well_formed cs"
    and len: "length bs < 2 ^ 32" and pj: "pj (decode jt) = Some j"
  shows "outcome (unpackBinaryAsync pj (DataReader b)) =
         Some (Inr \<lparr> json = j, bin = last_bin b (20 + length jt) cs None \<rparr>)"
proof -
  obtain cs' t p where c: "cs = cs' @ [(t, p)]"
    using cs(1) by (metis rev_exhaust surj_pair)
  have wf: "well_formed cs'" "t < 2 ^ 32" "t \<noteq> ChunkFormat_JSON" "length p < 2 ^ 32"
    using cs(2) by (simp_all add: c)
  define b' where "b' = b\<lparr>byteLength := Number (int (length bs))\<rparr>"
  define pre where "pre = header Binary_Magic 2 (12 + length (chunk ChunkFormat_JSON jt @ chunks cs))
      @ chunk ChunkFormat_JSON jt"
  have lp: "length pre = 20 + length jt"
    by (simp add: pre_def)
  have bs1: "bs = pre @ chunks cs' @ chunk t p"
    by (simp add: bs container_def pre_def c)
  have r8: "8 \<le> length (chunks cs)"
    by (simp add: c)
  then have b8: "8 \<le> length (chunk ChunkFormat_JSON jt @ chunks cs)"
    by simp
  have f: "unpackBinaryAsync pj (DataReader b) = unpackBinaryV2Async pj (loaded_header b bs)"
    using front [OF sv bs b8 _ len, of pj] by simp
  from v2_more_chunks [where pj = pj and j = j, OF sv bs len pj r8]
  obtain r1 where r1: "unpackBinaryV2Async pj (loaded_header b bs) =
              readAsync_loop \<lparr> json = j, bin = None \<rparr> r1"
      "synced b' bs r1" "byteOffset r1 = 20 + length jt" "byteOffset r1 + 8 \<le> length (window r1)"
    unfolding b'_def by blast
  have o1: "byteOffset r1 = length pre"
    using r1(3) lp by simp
  have p8: "8 \<le> length (chunk t p)"
    by simp
  from loop_skip [OF r1(2) r1(4) bs1 o1 wf(1) p8, of "\<lparr> json = j, bin = None \<rparr>"]
  obtain r2 where r2: "readAsync_loop \<lparr> json = j, bin = None \<rparr> r1 =
        readAsync_loop \<lparr> json = j, bin = last_bin b' (length pre) cs' None \<rparr> r2"
      "synced b' bs r2" "byteOffset r2 = length pre + length (chunks cs')"
      "byteOffset r2 + 8 \<le> length (window r2)"
    by auto
  have bs2: "bs = (pre @ chunks cs') @ chunk t p"
    using bs1 by simp
  have o2: "byteOffset r2 = length (pre @ chunks cs')"
    using r2(3) by simp
  note l = loop_last [OF r2(2) r2(4) bs2 o2 wf(2,3,4),
      of "\<lparr> json = j, bin = last_bin b' (length pre) cs' None \<rparr>"]
  have d: "record_bin b' t (length (pre @ chunks cs') + 8) (length p)
            \<lparr> json = j, bin = last_bin b' (length pre) cs' None \<rparr>
         = \<lparr> json = j, bin = last_bin b (20 + length jt) cs None \<rparr>"
    by (simp add: c last_bin_append record_bin_def lp b'_def)
  show ?thesis
    unfolding f r1(1) r2(1) l d by (simp add: outcome_def)
qed


subsection \<open>Digits, decimal values and number values\<close>

lemma digit_chars: "map char_of [48..<58::nat] = ''0123456789''"
  by code_simp

lemma digits_are_digits: "list_all isDigit ''0123456789''"
  by code_simp

lemma isDigit_iff: "isDigit c \<longleftrightarrow> c \<in> set ''0123456789''"
proof
  assume "isDigit c"
  then have "(of_char c :: nat) \<in> set [48..<58]"
    unfolding isDigit_def set_upt atLeastLessThan_iff by arith
  then have "char_of (of_char c :: nat) \<in> set (map char_of [48..<58::nat])"
    unfolding set_map by (rule imageI)
  then show "c \<in> set ''0123456789''"
    unfolding digit_chars by (simp only: char_of_char)
next
  assume "c \<in> set ''0123456789''"
  then show "isDigit c"
    using digits_are_digits unfolding list_all_iff by blast
qed

lemma digit_values: "list_all (\<lambda>c. of_char c - 48 = digit_value c) ''0123456789''"
  by code_simp

lemma digit_value_code: "c \<in> set ''0123456789'' \<Longrightarrow> of_char c - 48 = digit_value c"
  using digit_values unfolding list_all_iff by blast

lemma horner:
  "set ds \<subseteq> set ''0123456789'' \<Longrightarrow>
   foldl (\<lambda>acc c. 10 * acc + (of_char c - 48)) acc ds = acc * 10 ^ length ds + decimal_value ds"
proof (induction ds arbitrary: acc)
  case Nil
  then show ?case by simp
next
  case (Cons c cs)
  have c: "c \<in> set ''0123456789''" and cs: "set cs \<subseteq> set ''0123456789''"
    using Cons.prems by auto
  show ?case
    using Cons.IH [OF cs, of "10 * acc + (of_char c - 48)"] digit_value_code [OF c]
    by (simp add: algebra_simps)
qed

lemma parseInt_run: "digit_run ds \<Longrightarrow> parseInt ds = toNumber (decimal_value ds)"
  using horner [of ds 0] by (simp add: parseInt_def digit_run_def)

lemma halvings_binade: "2 ^ (52 + e) \<le> n \<Longrightarrow> n < 2 ^ (53 + e) \<Longrightarrow> halvings n = e"
proof (induction e arbitrary: n)
  case 0
  then show ?case by (simp add: halvings.simps)
next
  case (Suc e)
  have big: "\<not> n < 2 ^ 53"
  proof -
    have "(2::nat) ^ 53 \<le> 2 ^ (52 + Suc e)"
      by (rule power_increasing) simp_all
    then show ?thesis using Suc.prems(1) by linarith
  qed
  have "(2::nat) ^ (52 + Suc e) = 2 * 2 ^ (52 + e)" "(2::nat) ^ (53 + Suc e) = 2 * 2 ^ (53 + e)"
    by (simp_all only: add_Suc_right power_Suc)
  then have "2 * 2 ^ (52 + e) \<le> n" "n < 2 * 2 ^ (53 + e)"
    using Suc.prems by simp_all
  then have lo: "2 ^ (52 + e) \<le> n div 2" and hi: "n div 2 < 2 ^ (53 + e)"
    by linarith+
  have "halvings n = Suc (halvings (n div 2))"
    using big by (subst halvings.simps) simp
  then show ?case
    using Suc.IH [OF lo hi] by simp
qed

lemma toNumber_exact: "n < 2 ^ 53 \<Longrightarrow> toNumber n = Number (int n)"
proof -
  assume n: "n < 2 ^ 53"
  then have h: "halvings n = 0"
    by (simp add: halvings.simps)
  have "n < (2::nat) ^ 1024"
    using n by (rule less_trans) simp
  then show ?thesis
    by (simp add: toNumber_def h)
qed

lemma toNumber_nearest:
  assumes lo: "2 ^ (52 + e) \<le> n" and hi: "n < 2 ^ (53 + e)" and v: "toNumber n = Number v"
  shows "2 ^ e dvd v \<and> 2 * \<bar>v - int n\<bar> \<le> 2 ^ e \<and> (2 * \<bar>v - int n\<bar> = 2 ^ e \<longrightarrow> even (v div 2 ^ e))"
proof -
  define P :: nat where "P = 2 ^ e"
  define q where "q = n div P"
  define r where "r = n mod P"
  have P: "0 < P" by (simp add: P_def)
  have n: "n = q * P + r" and r: "r < P"
    using P by (simp_all add: q_def r_def)
  have h: "halvings n = e"
    using halvings_binade [OF lo hi] .
  define m where "m = (if 2 * r < P \<or> (2 * r = P \<and> even q) then q else q + 1)"
  have "toNumber n = (if m * P < 2 ^ 1024 then Number (int (m * P)) else Infinity)"
    by (simp add: toNumber_def h Let_def m_def q_def r_def P_def)
  then have vm: "v = int m * int P"
    using v by (simp split: if_splits)
  have d: "int P dvd v"
    by (simp add: vm)
  have dv: "v div int P = int m"
    using P by (simp add: vm)
  have near: "2 * \<bar>v - int n\<bar> \<le> int P \<and> (2 * \<bar>v - int n\<bar> = int P \<longrightarrow> even m)"
  proof (cases "2 * r < P \<or> (2 * r = P \<and> even q)")
    case True
    then have "m = q" by (simp add: m_def)
    then have "v - int n = - int r"
      by (simp add: vm n)
    then show ?thesis
      using True \<open>m = q\<close> by auto
  next
    case False
    then have "m = q + 1" by (simp add: m_def)
    then have "v - int n = int P - int r"
      by (simp add: vm n algebra_simps)
    then show ?thesis
      using False r \<open>m = q + 1\<close> by auto
  qed
  show ?thesis
    using d dv near by (simp add: P_def)
qed

lemma halvings_bounds:
  "n < 2 ^ (53 + halvings n) \<and> (2 ^ 53 \<le> n \<longrightarrow> 2 ^ (52 + halvings n) \<le> n)"
proof (induction n rule: halvings.induct)
  case (1 n)
  show ?case
  proof (cases "n < 2 ^ 53")
    case True
    then have "halvings n = 0"
      by (subst halvings.simps) simp
    then show ?thesis
      using True by simp
  next
    case False
    define h where "h = halvings (n div 2)"
    have hn: "halvings n = Suc h"
      unfolding h_def using False by (subst halvings.simps) simp
    have p: "(2::nat) ^ (53 + Suc h) = 2 * 2 ^ (53 + h)" "(2::nat) ^ (52 + Suc h) = 2 * 2 ^ (52 + h)"
      by (simp_all only: add_Suc_right power_Suc)
    have ih: "n div 2 < 2 ^ (53 + h)" "2 ^ 53 \<le> n div 2 \<longrightarrow> 2 ^ (52 + h) \<le> n div 2"
      using 1 [OF False] unfolding h_def by blast+
    have up: "n < 2 * 2 ^ (53 + h)"
      using ih(1) by linarith
    have low: "2 * 2 ^ (52 + h) \<le> n"
    proof (cases "2 ^ 53 \<le> n div 2")
      case True
      then have "2 ^ (52 + h) \<le> n div 2"
        using ih(2) by blast
      then show ?thesis by linarith
    next
      case small: False
      then have "halvings (n div 2) = 0"
        by (subst halvings.simps) simp
      then have "h = 0" by (simp add: h_def)
      then show ?thesis
        using False by simp
    qed
    show ?thesis
      unfolding hn p using up low by blast
  qed
qed

lemma toNumber_Infinity: "toNumber n = Infinity \<longleftrightarrow> 2 ^ 1024 - 2 ^ 970 \<le> n"
proof (cases "n < 2 ^ 53")
  case True
  have "(2::nat) ^ 53 \<le> 2 ^ 1024 - 2 ^ 970"
    by simp
  then have "\<not> 2 ^ 1024 - 2 ^ 970 \<le> n"
    using True by linarith
  then show ?thesis
    using toNumber_exact [OF True] by simp
next
  case False
  define e where "e = halvings n"
  define P :: nat where "P = 2 ^ e"
  define q where "q = n div P"
  define r where "r = n mod P"
  define m where "m = (if 2 * r < P \<or> (2 * r = P \<and> even q) then q else q + 1)"
  have P: "0 < P" by (simp add: P_def)
  have n: "n = q * P + r" and r: "r < P"
    using P by (simp_all add: q_def r_def)
  have "n < 2 ^ (53 + e)" "2 ^ (52 + e) \<le> n"
    using halvings_bounds [of n] False by (simp_all add: e_def)
  then have hi: "n < 2 ^ 53 * P" and lo: "2 ^ 52 * P \<le> n"
    by (simp_all only: power_add P_def)
  have q1: "q < 2 ^ 53"
    unfolding q_def using hi P by (simp only: div_less_iff_less_mult)
  have q0: "2 ^ 52 \<le> q"
    unfolding q_def using lo P by (simp only: less_eq_div_iff_mult_less_eq)
  have mq: "q \<le> m" "m \<le> q + 1"
    by (simp_all add: m_def)
  have t: "toNumber n = (if m * P < 2 ^ 1024 then Number (int (m * P)) else Infinity)"
    by (simp add: toNumber_def Let_def m_def q_def r_def P_def e_def)
  have inf: "toNumber n = Infinity \<longleftrightarrow> 2 ^ 1024 \<le> m * P"
    unfolding t by auto
  consider "e \<le> 970" | "972 \<le> e" | "e = 971"
    by linarith
  then have "2 ^ 1024 \<le> m * P \<longleftrightarrow> 2 ^ 1024 - 2 ^ 970 \<le> n"
  proof cases
    case 1
    then have "P \<le> 2 ^ 970"
      unfolding P_def by (intro power_increasing) simp_all
    moreover have "m \<le> 2 ^ 53"
      using mq(2) q1 by linarith
    ultimately have "m * P \<le> 2 ^ 53 * 2 ^ 970"
      by (rule mult_le_mono [rotated])
    moreover have "n < 2 ^ 53 * 2 ^ 970"
      using hi \<open>P \<le> 2 ^ 970\<close> by (meson less_le_trans mult_le_mono2)
    moreover have "(2::nat) ^ 53 * 2 ^ 970 < 2 ^ 1024" "(2::nat) ^ 53 * 2 ^ 970 \<le> 2 ^ 1024 - 2 ^ 970"
      by simp_all
    ultimately show ?thesis
      by linarith
  next
    case 2
    then have "2 ^ 972 \<le> P"
      unfolding P_def by (intro power_increasing) simp_all
    then have "2 ^ 52 * 2 ^ 972 \<le> q * P"
      using q0 by (intro mult_le_mono)
    moreover have "q * P \<le> m * P"
      using mq(1) by (intro mult_le_mono) simp_all
    moreover have "q * P \<le> n"
      using n by simp
    moreover have "(2::nat) ^ 52 * 2 ^ 972 = 2 ^ 1024"
      by simp
    ultimately show ?thesis
      by linarith
  next
    case 3
    then have Pv: "P = 2 ^ 971"
      by (simp add: P_def)
    have "2 ^ 1024 = 2 ^ 53 * P"
      unfolding Pv by simp
    then have l: "2 ^ 1024 \<le> m * P \<longleftrightarrow> 2 ^ 53 \<le> m"
      using P by simp
    have thr: "(2::nat) ^ 1024 - 2 ^ 970 = (2 ^ 53 - 1) * 2 ^ 971 + 2 ^ 970" and P2: "(2::nat) ^ 971 = 2 * 2 ^ 970"
      by simp_all
    show ?thesis
    proof (cases "q = 2 ^ 53 - 1")
      case True
      then have "odd q" by simp
      then have m: "m = (if 2 * r < P then q else q + 1)"
        by (simp add: m_def)
      have "2 ^ 53 \<le> m \<longleftrightarrow> P \<le> 2 * r"
        using True by (simp add: m)
      also have "\<dots> \<longleftrightarrow> 2 ^ 970 \<le> r"
        unfolding Pv P2 by linarith
      also have "\<dots> \<longleftrightarrow> 2 ^ 1024 - 2 ^ 970 \<le> n"
        unfolding thr n Pv True by linarith
      finally show ?thesis
        using l by simp
    next
      case False
      then have "q + 2 \<le> 2 ^ 53"
        using q1 by linarith
      then have "(q + 2) * P \<le> 2 ^ 53 * P"
        by (intro mult_le_mono) simp_all
      then have "q * P + 2 * P \<le> 2 ^ 53 * P"
        by (simp add: algebra_simps)
      then have "n + P < 2 ^ 53 * P"
        using n r by linarith
      then have "n + 2 ^ 971 < 2 ^ 1024"
        unfolding Pv by simp
      then have "\<not> 2 ^ 1024 - 2 ^ 970 \<le> n"
        by simp
      moreover have "\<not> 2 ^ 53 \<le> m"
        using mq(2) \<open>q + 2 \<le> 2 ^ 53\<close> by linarith
      ultimately show ?thesis
        using l by simp
    qed
  qed
  then show ?thesis
    using inf by simp
qed

lemma halvings_2_53_1: "halvings 9007199254740993 = 1"
  by (rule halvings_binade) simp_all

lemma toNumber_2_53_1: "toNumber 9007199254740993 = Number 9007199254740992"
  by (simp add: toNumber_def halvings_2_53_1)

lemma halvings_2_53_3: "halvings 9007199254740995 = 1"
  by (rule halvings_binade) simp_all

lemma toNumber_2_53_3: "toNumber 9007199254740995 = Number 9007199254740996"
  by (simp add: toNumber_def halvings_2_53_3)

subsection \<open>The version matcher\<close>

lemma digit_run_isDigit: "digit_run a \<longleftrightarrow> a \<noteq> [] \<and> (\<forall>c\<in>set a. isDigit c)"
  unfolding digit_run_def isDigit_iff by blast

lemma not_digit_dot [simp]: "\<not> isDigit CHR ''.''"
  by (simp add: isDigit_def)

lemma match_pattern:
  assumes "digit_run a" and "digit_run b" and "rest = [] \<or> hd rest \<notin> set ''0123456789''"
  shows "match_version (a @ ''.'' @ b @ rest) = Some (a, b)"
proof -
  have a: "a \<noteq> []" "\<forall>c\<in>set a. isDigit c" and b: "b \<noteq> []" "\<forall>c\<in>set b. isDigit c"
    using assms(1,2) by (simp_all add: digit_run_isDigit)
  have t1: "takeWhile isDigit (a @ ''.'' @ b @ rest) = a"
    using a(2) by (simp add: takeWhile_append2)
  have d1: "dropWhile isDigit (a @ ''.'' @ b @ rest) = ''.'' @ b @ rest"
    using a(2) by (simp add: dropWhile_append2)
  have t2: "takeWhile isDigit (b @ rest) = b"
  proof (cases rest)
    case Nil
    then show ?thesis using b(2) by simp
  next
    case (Cons c cs)
    then have "\<not> isDigit c" using assms(3) unfolding isDigit_iff by simp
    then show ?thesis using b(2) Cons by (simp add: takeWhile_append2)
  qed
  show ?thesis
    using a(1) b(1) t1 d1 t2 by (simp add: match_version_def)
qed

lemma match_version_Some:
  assumes "match_version s = Some (a, b)"
  shows "\<exists>rest. s = a @ ''.'' @ b @ rest \<and> digit_run a \<and> digit_run b"
proof -
  from assms obtain c rest' where
    a: "a = takeWhile isDigit s" "a \<noteq> []" and r: "dropWhile isDigit s = c # rest'" "c = CHR ''.''"
    and b: "b = takeWhile isDigit rest'" "b \<noteq> []"
    by (auto simp: match_version_def Let_def split: if_splits list.splits)
  have "s = a @ dropWhile isDigit s"
    by (simp add: a(1))
  also have "\<dots> = a @ ''.'' @ b @ dropWhile isDigit rest'"
    by (simp add: r b(1))
  finally have "s = a @ ''.'' @ b @ dropWhile isDigit rest'" .
  moreover have "digit_run a" "digit_run b"
    unfolding digit_run_isDigit using a b by (auto dest: set_takeWhileD)
  ultimately show ?thesis by blast
qed

lemma leading_version_match:
  assumes "leading_version s"
  shows "\<exists>a b. match_version s = Some (a, b)"
proof -
  from assms obtain a b rest where s: "s = a @ ''.'' @ b @ rest" "digit_run a" "digit_run b"
    by (auto simp: leading_version_def)
  define b' where "b' = b @ takeWhile isDigit rest"
  define rest' where "rest' = dropWhile isDigit rest"
  have "digit_run b'"
    using s(3) unfolding digit_run_isDigit by (auto simp: b'_def dest: set_takeWhileD)
  moreover have "rest' = [] \<or> hd rest' \<notin> set ''0123456789''"
    unfolding rest'_def isDigit_iff [symmetric] by (metis hd_dropWhile)
  moreover have "s = a @ ''.'' @ b' @ rest'"
    by (simp add: s(1) b'_def rest'_def)
  ultimately show ?thesis
    using match_pattern [OF s(2)] by blast
qed

subsection \<open>Runs over chunked containers\<close>

lemma serves_memory: "serves (memory_buffer bs) bs"
  by (simp add: serves_def memory_buffer_def)

lemma serves_range: "serves (range_buffer (file_server bs) (Number (int (length bs)))) bs"
  by (simp add: serves_def range_buffer_def file_server_def)

lemma decode_text_bytes: "decode (text_bytes s) = s"
proof -
  have "char_of (unat (of_nat (of_char c) :: byte)) = c" for c :: char
  proof -
    have "(of_char c :: nat) < 256"
      by (rule nat_of_char_less_256)
    then have "unat (of_nat (of_char c) :: byte) = of_char c"
      by (simp add: unat_of_nat)
    then show ?thesis by simp
  qed
  then show ?thesis
    by (simp add: decode_def text_bytes_def map_idI)
qed

lemma decode_braces: "decode [0x7B, 0x7D] = ''{}''"
  by (simp add: decode_def char_of_def bit_iff_odd)

lemma bin_payload_cur:
  "bin_payload cs cur = (case bin_payload cs None of None \<Rightarrow> cur | Some q \<Rightarrow> Some q)"
proof (induction cs arbitrary: cur)
  case Nil
  then show ?case by simp
next
  case (Cons c cs)
  obtain t p where c: "c = (t, p)" by (cases c)
  show ?case
    using Cons.IH [of "Some p"] Cons.IH [of cur] Cons.IH [of None]
    by (simp add: c split: option.splits)
qed

lemma blob_view:
  assumes "serves b bs" and "start + length p \<le> length bs"
    and "take (length p) (drop start bs) = p"
  shows "blob (bin_view b start (Number (int (length p)))) = (Number (int (length p)), Some p)"
  using assms by (simp add: blob_def bin_view_def serves_def)

lemma last_bin_blob:
  assumes "serves b bs" and "bs = pre @ chunks cs"
  shows "map_option blob (last_bin b (length pre) cs cur) =
         (case bin_payload cs None of
            None \<Rightarrow> map_option blob cur
          | Some p \<Rightarrow> Some (Number (int (length p)), Some p))"
  using assms(2)
proof (induction cs arbitrary: pre cur)
  case Nil
  then show ?case by simp
next
  case (Cons c cs)
  obtain t p where c: "c = (t, p)" by (cases c)
  define cur' where
    "cur' = (if t = ChunkFormat_BIN then Some (bin_view b (length pre + 8) (Number (int (length p)))) else cur)"
  have bs: "bs = (pre @ chunk t p) @ chunks cs"
    using Cons.prems by (simp add: c)
  have ih: "map_option blob (last_bin b (length pre + 8 + length p) cs cur') =
         (case bin_payload cs None of
            None \<Rightarrow> map_option blob cur'
          | Some p \<Rightarrow> Some (Number (int (length p)), Some p))"
    using Cons.IH [OF bs, of cur'] by (simp add: add.assoc)
  have pl: "take (length p) (drop (length pre + 8) bs) = p"
    and le: "length pre + 8 + length p \<le> length bs"
    using Cons.prems by (simp_all add: c chunk_def)
  have v: "blob (bin_view b (length pre + 8) (Number (int (length p)))) = (Number (int (length p)), Some p)"
    using blob_view [OF assms(1) le pl] .
  show ?case
    using ih bin_payload_cur [of cs "Some p"]
    by (simp add: c cur'_def v split: option.splits)
qed

lemma observed_outcome:
  "outcome res = Some (Inr d) \<Longrightarrow> observed res = Some (json d, map_option blob (bin d))"
  by (auto simp: outcome_def observed_def)

lemma v2_observed:
  assumes sv: "serves b bs" and bs: "bs = container 2 (chunk ChunkFormat_JSON jt @ chunks cs)"
    and cs: "well_formed cs"
    and len: "length bs < 2 ^ 32" and pj: "pj (decode jt) = Some j"
  shows "observed (unpackBinaryAsync pj (DataReader b)) =
         Some (j, map_option (\<lambda>p. (Number (int (length p)), Some p)) (bin_payload cs None))"
proof (cases "cs = []")
  case True
  have bs0: "bs = container 2 (chunk ChunkFormat_JSON jt)"
    using bs True by simp
  have b8: "8 \<le> length (chunk ChunkFormat_JSON jt)"
    by simp
  have "unpackBinaryAsync pj (DataReader b) = unpackBinaryV2Async pj (loaded_header b bs)"
    using front [OF sv bs0 b8 _ len, of pj] by simp
  then show ?thesis
    unfolding v2_json_only [where pj = pj and j = j, OF sv bs0 len pj]
    by (simp add: observed_def True)
next
  case False
  define pre where "pre = header Binary_Magic 2 (12 + length (chunk ChunkFormat_JSON jt @ chunks cs))
      @ chunk ChunkFormat_JSON jt"
  have lp: "length pre = 20 + length jt"
    by (simp add: pre_def)
  have bs1: "bs = pre @ chunks cs"
    by (simp add: bs container_def pre_def)
  note o = v2_run [where pj = pj and j = j, OF sv bs False cs len pj]
  show ?thesis
    unfolding observed_outcome [OF o]
    using last_bin_blob [OF sv bs1, of None]
    by (simp add: lp split: option.splits)
qed

lemma last_bin_none:
  "filter is_bin cs = [] \<Longrightarrow> last_bin b off cs cur = cur"
proof (induction cs arbitrary: off)
  case Nil
  then show ?case by simp
next
  case (Cons c cs)
  obtain t p where c: "c = (t, p)" by (cases c)
  show ?case
    using Cons by (simp add: c is_bin_def split: if_splits)
qed

lemma view_reads_payload:
  assumes "serves b bs" and "bs = pre @ p @ post"
  shows "readAsync (bin_view b (length pre) (Number (int (length p)))) 0 (length p) = Some (p, Number (int (length p)))"
  using assms by (simp add: bin_view_def serves_def)

text \<open>
  C2. In a chunked container made of a JSON chunk and a BIN chunk, the blob is
  the view of the byte source that starts at the first byte after the BIN chunk
  header: its \<^verbatim>\<open>byteLength\<close> is the declared length of the BIN chunk, a read of
  it at \<open>off\<close> is a read of the source at the payload start plus \<open>off\<close>,
  and reading its full range gives exactly the payload.
\<close>

theorem bin_chunk_view:
  assumes "serves b bs"
    and "bs = container 2 (chunk ChunkFormat_JSON jt @ chunk ChunkFormat_BIN p)"
    and "length bs < 2 ^ 32" and "pj (decode jt) = Some j"
  shows "outcome (unpackBinaryAsync pj (DataReader b)) =
           Some (Inr \<lparr> json = j, bin = Some (bin_view b (28 + length jt) (Number (int (length p)))) \<rparr>)
       \<and> byteLength (bin_view b (28 + length jt) (Number (int (length p)))) = Number (int (length p))
       \<and> readAsync (bin_view b (28 + length jt) (Number (int (length p)))) off n =
           map_option (\<lambda>(d, _). (d, Number (int (length p)))) (readAsync b (28 + length jt + off) n)
       \<and> readAsync (bin_view b (28 + length jt) (Number (int (length p)))) 0 (length p) = Some (p, Number (int (length p)))
       \<and> drop (28 + length jt) bs = p"
proof -
  have bs: "bs = container 2 (chunk ChunkFormat_JSON jt @ chunks [(ChunkFormat_BIN, p)])"
    using assms(2) by simp
  have wf: "well_formed [(ChunkFormat_BIN, p)]"
    using assms(3) by (simp add: assms(2) ChunkFormat_BIN_def ChunkFormat_JSON_def)
  have "outcome (unpackBinaryAsync pj (DataReader b)) =
        Some (Inr \<lparr> json = j, bin = last_bin b (20 + length jt) [(ChunkFormat_BIN, p)] None \<rparr>)"
    using v2_run [where pj = pj and j = j, OF assms(1) bs _ wf assms(3,4)] by simp
  moreover have "bs = (header Binary_Magic 2 (12 + length (chunk ChunkFormat_JSON jt @ chunk ChunkFormat_BIN p))
      @ chunk ChunkFormat_JSON jt @ le32 (length p) @ le32 ChunkFormat_BIN) @ p @ []"
    by (simp add: assms(2) container_def chunk_def)
  from view_reads_payload [OF assms(1) this]
  have "readAsync (bin_view b (28 + length jt) (Number (int (length p)))) 0 (length p) = Some (p, Number (int (length p)))"
    by (simp add: add.commute)
  moreover have "drop (28 + length jt) bs = p"
    by (simp add: assms(2) container_def chunk_def header_def)
  ultimately show ?thesis
    by (simp add: bin_view_def add.commute)
qed

theorem bin_chunk_view_witness:
  "outcome (unpackBinaryAsync Some (DataReader (memory_buffer glb_json_bin))) =
     Some (Inr \<lparr> json = ''{}'', bin = Some (bin_view (memory_buffer glb_json_bin) 30 (Number 3)) \<rparr>)
   \<and> byteLength (bin_view (memory_buffer glb_json_bin) 30 (Number 3)) = Number 3
   \<and> readAsync (bin_view (memory_buffer glb_json_bin) 30 (Number 3)) 1 2 =
       map_option (\<lambda>(d, _). (d, Number 3)) (readAsync (memory_buffer glb_json_bin) 31 2)
   \<and> readAsync (bin_view (memory_buffer glb_json_bin) 30 (Number 3)) 0 3 = Some ([1, 2, 3], Number 3)
   \<and> drop 30 glb_json_bin = [1, 2, 3]"
proof -
  have sz: "length glb_json_bin < 2 ^ 32"
    by (simp add: glb_json_bin_def)
  have pj: "Some (decode [0x7B, 0x7D]) = Some ''{}''"
    by (simp add: decode_braces)
  show ?thesis
    using bin_chunk_view [where pj = Some and off = 1 and n = 2, OF serves_memory glb_json_bin_def sz pj]
    by (simp add: numeral_3_eq_3)
qed

text \<open>
  C3. A JSON-tagged chunk after the first chunk makes the run fail with the
  duplicate-JSON error wherever it stands: after any well-formed chunks \<open>cs\<close>
  (BIN chunks among them), and whatever bytes follow its header. No loader data
  is returned.
\<close>

theorem second_json_chunk_fails:
  assumes sv: "serves b bs"
    and bs: "bs = container 2 (chunk ChunkFormat_JSON jt @ chunks cs @ le32 n @ le32 ChunkFormat_JSON @ rest)"
    and cs: "well_formed cs" and n: "n < 2 ^ 32"
    and len: "length bs < 2 ^ 32" and pj: "pj (decode jt) = Some j"
  shows "outcome (unpackBinaryAsync pj (DataReader b)) = Some (Inl UnexpectedJSONChunk)"
proof -
  define b' where "b' = b\<lparr>byteLength := Number (int (length bs))\<rparr>"
  define tail where "tail = chunks cs @ le32 n @ le32 ChunkFormat_JSON @ rest"
  define pre where "pre = header Binary_Magic 2 (12 + length (chunk ChunkFormat_JSON jt @ tail))
      @ chunk ChunkFormat_JSON jt"
  have lp: "length pre = 20 + length jt"
    by (simp add: pre_def)
  have bs0: "bs = container 2 (chunk ChunkFormat_JSON jt @ tail)"
    by (simp add: bs tail_def)
  have bs1: "bs = pre @ chunks cs @ (le32 n @ le32 ChunkFormat_JSON @ rest)"
    by (simp add: bs0 container_def pre_def) (simp add: tail_def)
  have r8: "8 \<le> length tail"
    by (simp add: tail_def)
  then have b8: "8 \<le> length (chunk ChunkFormat_JSON jt @ tail)"
    by simp
  have f: "unpackBinaryAsync pj (DataReader b) = unpackBinaryV2Async pj (loaded_header b bs)"
    using front [OF sv bs0 b8 _ len, of pj] by simp
  from v2_more_chunks [where pj = pj and j = j, OF sv bs0 len pj r8]
  obtain r1 where r1: "unpackBinaryV2Async pj (loaded_header b bs) =
              readAsync_loop \<lparr> json = j, bin = None \<rparr> r1"
      "synced b' bs r1" "byteOffset r1 = 20 + length jt" "byteOffset r1 + 8 \<le> length (window r1)"
    unfolding b'_def by blast
  have o1: "byteOffset r1 = length pre"
    using r1(3) lp by simp
  have p8: "8 \<le> length (le32 n @ le32 ChunkFormat_JSON @ rest)"
    by simp
  from loop_skip [OF r1(2) r1(4) bs1 o1 cs p8, of "\<lparr> json = j, bin = None \<rparr>"]
  obtain r2 where r2: "readAsync_loop \<lparr> json = j, bin = None \<rparr> r1 =
        readAsync_loop \<lparr> json = j, bin = last_bin b' (length pre) cs None \<rparr> r2"
      "synced b' bs r2" "byteOffset r2 = length pre + length (chunks cs)"
      "byteOffset r2 + 8 \<le> length (window r2)"
    by auto
  have bs2: "bs = (pre @ chunks cs) @ le32 n @ le32 ChunkFormat_JSON @ rest"
    using bs1 by simp
  have o2: "byteOffset r2 = length (pre @ chunks cs)"
    using r2(3) by simp
  note l = loop_json [OF r2(2) r2(4) bs2 o2 n,
      of "\<lparr> json = j, bin = last_bin b' (length pre) cs None \<rparr>"]
  show ?thesis
    unfolding f r1(1) r2(1) l by (simp add: outcome_def)
qed

theorem second_json_chunk_fails_witness:
  "outcome (unpackBinaryAsync Some (DataReader (memory_buffer glb_second_json))) =
     Some (Inl UnexpectedJSONChunk)"
proof -
  have sz: "length glb_second_json < 2 ^ 32"
    by (simp add: glb_second_json_def)
  have pj: "Some (decode [0x7B, 0x7D]) = Some ''{}''"
    by (simp add: decode_braces)
  have wf: "well_formed [(ChunkFormat_BIN, [1, 2, 3])]"
    by (simp add: ChunkFormat_BIN_def ChunkFormat_JSON_def)
  have n: "(2::nat) < 2 ^ 32"
    by simp
  show ?thesis
    using second_json_chunk_fails [where pj = Some, OF serves_memory glb_second_json_def wf n sz pj] .
qed

text \<open>
  C4. When the JSON chunk ends the source, the run returns the parsed JSON with
  no blob: for every text, the container whose only chunk holds the bytes of
  that text gives what the parser makes of that very text. The reader stops at
  the end of the JSON text, so no further chunk header is read, and the byte
  source was asked for the 20 header bytes and the JSON text, nothing else.
\<close>

theorem json_chunk_to_the_end:
  assumes "serves b bs" and "bs = container 2 (chunk ChunkFormat_JSON (text_bytes text))"
    and "length bs < 2 ^ 32" and "pj text = Some j"
  shows "unpackBinaryAsync pj (DataReader b) =
         Some (Inr \<lparr> json = j, bin = None \<rparr>,
               \<lparr> buffer = b\<lparr>byteLength := Number (int (length bs))\<rparr>, byteOffset = 20 + length text,
                 window = bs,
                 requests = (if text = [] then [(0, 20)] else [(0, 20), (20, length text)]) \<rparr>)"
proof -
  define jt where "jt = text_bytes text"
  have bs: "bs = container 2 (chunk ChunkFormat_JSON jt)"
    using assms(2) by (simp add: jt_def)
  have jt: "length jt = length text" "jt = [] \<longleftrightarrow> text = []"
    by (simp_all add: jt_def text_bytes_def)
  have pj: "pj (decode jt) = Some j"
    using assms(4) by (simp add: jt_def decode_text_bytes)
  have b8: "8 \<le> length (chunk ChunkFormat_JSON jt)"
    by simp
  have "unpackBinaryAsync pj (DataReader b) = unpackBinaryV2Async pj (loaded_header b bs)"
    using front [OF assms(1) bs b8 _ assms(3), of pj] by simp
  then show ?thesis
    unfolding v2_json_only [where pj = pj and j = j, OF assms(1) bs assms(3) pj]
    by (simp add: bs jt)
qed

theorem json_chunk_to_the_end_witness:
  "unpackBinaryAsync Some (DataReader (memory_buffer glb_array_only)) =
     Some (Inr \<lparr> json = ''[1,2]'', bin = None \<rparr>,
           \<lparr> buffer = (memory_buffer glb_array_only)\<lparr>byteLength := Number 25\<rparr>, byteOffset = 25,
             window = glb_array_only, requests = [(0, 20), (20, 5)] \<rparr>)"
proof -
  have sz: "length glb_array_only = 25"
    by (simp add: glb_array_only_def text_bytes_def)
  have pj: "Some ''[1,2]'' = Some ''[1,2]''"
    by simp
  show ?thesis
    using json_chunk_to_the_end [where pj = Some, OF serves_memory glb_array_only_def _ pj]
    by (simp add: sz)
qed

lemma bin_payload_filter: "bin_payload (filter is_bin cs) cur = bin_payload cs cur"
proof (induction cs arbitrary: cur)
  case Nil
  then show ?case by simp
next
  case (Cons c cs)
  obtain t p where c: "c = (t, p)" by (cases c)
  show ?case
    using Cons by (simp add: c is_bin_def)
qed

lemma well_formed_filter: "well_formed cs \<Longrightarrow> well_formed (filter P cs)"
proof (induction cs)
  case Nil
  then show ?case by simp
next
  case (Cons c cs)
  obtain t p where c: "c = (t, p)" by (cases c)
  show ?case
    using Cons by (simp add: c)
qed

lemma length_chunks_filter: "length (chunks (filter P cs)) \<le> length (chunks cs)"
proof (induction cs)
  case Nil
  then show ?case by simp
next
  case (Cons c cs)
  obtain t p where c: "c = (t, p)" by (cases c)
  show ?case
    using Cons by (simp add: c)
qed

text \<open>
  C8. Chunks whose tag is neither JSON nor BIN are skipped: the run over a
  container with such chunks succeeds, and what it returns is observed to be
  what the run over the same container without them returns, the same JSON
  value and, through the blob, the same length and the same bytes (the payload
  of the last BIN chunk, or no blob when there is none).
\<close>

theorem unknown_chunks_skipped:
  assumes "serves bA bsA"
    and "bsA = container 2 (chunk ChunkFormat_JSON jt @ chunks cs)"
    and "serves bB bsB"
    and "bsB = container 2 (chunk ChunkFormat_JSON jt @ chunks (filter is_bin cs))"
    and "well_formed cs" and "length bsA < 2 ^ 32" and "pj (decode jt) = Some j"
  shows "observed (unpackBinaryAsync pj (DataReader bA)) =
           Some (j, map_option (\<lambda>p. (Number (int (length p)), Some p)) (bin_payload cs None))
       \<and> observed (unpackBinaryAsync pj (DataReader bB)) =
           observed (unpackBinaryAsync pj (DataReader bA))"
proof -
  have lenB: "length bsB < 2 ^ 32"
    using assms(6) length_chunks_filter [of is_bin cs] by (simp add: assms(2,4))
  note a = v2_observed [where pj = pj and j = j, OF assms(1,2,5,6,7)]
  note b = v2_observed [where pj = pj and j = j, OF assms(3,4) well_formed_filter [OF assms(5)] lenB assms(7)]
  show ?thesis
    unfolding a b by (simp add: bin_payload_filter)
qed

theorem unknown_chunks_skipped_witness:
  "observed (unpackBinaryAsync Some (DataReader (memory_buffer glb_extra_chunk))) =
     Some (''{}'', Some (Number 3, Some [1, 2, 3]))
   \<and> observed (unpackBinaryAsync Some (DataReader (memory_buffer glb_json_bin))) =
     observed (unpackBinaryAsync Some (DataReader (memory_buffer glb_extra_chunk)))"
proof -
  have sz: "length glb_extra_chunk < 2 ^ 32"
    by (simp add: glb_extra_chunk_def)
  have pj: "Some (decode [0x7B, 0x7D]) = Some ''{}''"
    by (simp add: decode_braces)
  have wf: "well_formed [(7, [9, 9]), (ChunkFormat_BIN, [1, 2, 3])]"
    by (simp add: ChunkFormat_BIN_def ChunkFormat_JSON_def)
  have without: "glb_json_bin = container 2 (chunk ChunkFormat_JSON [0x7B, 0x7D] @
      chunks (filter is_bin [(7, [9, 9]), (ChunkFormat_BIN, [1, 2, 3])]))"
    by (simp add: glb_json_bin_def is_bin_def ChunkFormat_BIN_def)
  show ?thesis
    using unknown_chunks_skipped [where pj = Some, OF serves_memory glb_extra_chunk_def
        serves_memory without wf sz pj]
    by (simp add: ChunkFormat_BIN_def)
qed

text \<open>
  C10. More than one BIN chunk is not an error. Every BIN chunk overwrites the
  recorded blob, so the run returns the view of the last one: it starts at that
  chunk's payload, has that chunk's declared length, and reads that payload.
  The chunks \<open>before\<close> may hold any number of BIN chunks, the chunks
  \<open>after\<close> hold none.
\<close>

theorem last_bin_chunk_wins:
  assumes "serves b bs"
    and "bs = container 2 (chunk ChunkFormat_JSON jt @
                chunks (before @ [(ChunkFormat_BIN, p)] @ after))"
    and "well_formed before" and "well_formed after" and "filter is_bin after = []"
    and "length bs < 2 ^ 32" and "pj (decode jt) = Some j"
  shows "outcome (unpackBinaryAsync pj (DataReader b)) =
           Some (Inr \<lparr> json = j,
                   bin = Some (bin_view b (28 + length jt + length (chunks before)) (Number (int (length p)))) \<rparr>)
       \<and> byteLength (bin_view b (28 + length jt + length (chunks before)) (Number (int (length p)))) = Number (int (length p))
       \<and> readAsync (bin_view b (28 + length jt + length (chunks before)) (Number (int (length p)))) 0 (length p)
           = Some (p, Number (int (length p)))
       \<and> take (length p) (drop (28 + length jt + length (chunks before)) bs) = p"
proof -
  have wfp: "well_formed [(ChunkFormat_BIN, p)]"
    using assms(6) by (simp add: assms(2) ChunkFormat_BIN_def ChunkFormat_JSON_def)
  have wf: "well_formed (before @ [(ChunkFormat_BIN, p)] @ after)"
    using assms(3,4) wfp by simp
  have lb: "last_bin b (20 + length jt) (before @ [(ChunkFormat_BIN, p)] @ after) None =
        Some (bin_view b (28 + length jt + length (chunks before)) (Number (int (length p))))"
    by (simp add: last_bin_append last_bin_none [OF assms(5)] add.commute add.left_commute)
  have "outcome (unpackBinaryAsync pj (DataReader b)) =
        Some (Inr \<lparr> json = j,
          bin = last_bin b (20 + length jt) (before @ [(ChunkFormat_BIN, p)] @ after) None \<rparr>)"
    using v2_run [where pj = pj and j = j, OF assms(1,2) _ wf assms(6,7)] by simp
  moreover have bs: "bs = (header Binary_Magic 2
        (12 + length (chunk ChunkFormat_JSON jt @ chunks (before @ [(ChunkFormat_BIN, p)] @ after)))
      @ chunk ChunkFormat_JSON jt @ chunks before @ le32 (length p) @ le32 ChunkFormat_BIN)
      @ p @ chunks after"
    by (simp add: assms(2) container_def chunk_def)
  from view_reads_payload [OF assms(1) this]
  have "readAsync (bin_view b (28 + length jt + length (chunks before)) (Number (int (length p)))) 0 (length p)
      = Some (p, Number (int (length p)))"
    by (simp add: add.commute add.left_commute)
  moreover have "take (length p) (drop (28 + length jt + length (chunks before)) bs) = p"
    by (subst bs) (simp add: add.commute add.left_commute)
  ultimately show ?thesis
    unfolding lb by (simp add: bin_view_def)
qed

theorem last_bin_chunk_wins_witness:
  "outcome (unpackBinaryAsync Some (DataReader (memory_buffer glb_two_bins))) =
     Some (Inr \<lparr> json = ''{}'', bin = Some (bin_view (memory_buffer glb_two_bins) 41 (Number 2)) \<rparr>)
   \<and> byteLength (bin_view (memory_buffer glb_two_bins) 41 (Number 2)) = Number 2
   \<and> readAsync (bin_view (memory_buffer glb_two_bins) 41 (Number 2)) 0 2 = Some ([4, 5], Number 2)
   \<and> take 2 (drop 41 glb_two_bins) = [4, 5]"
proof -
  have sz: "length glb_two_bins < 2 ^ 32"
    by (simp add: glb_two_bins_def)
  have pj: "Some (decode [0x7B, 0x7D]) = Some ''{}''"
    by (simp add: decode_braces)
  have wf: "well_formed [(ChunkFormat_BIN, [1, 2, 3])]" "well_formed [(7, [9])]"
    by (simp_all add: ChunkFormat_BIN_def ChunkFormat_JSON_def)
  have nb: "filter is_bin [(7, [9])] = []"
    by (simp add: is_bin_def ChunkFormat_BIN_def)
  show ?thesis
    using last_bin_chunk_wins [where pj = Some, OF serves_memory glb_two_bins_def wf nb sz pj]
    by (simp add: numeral_2_eq_2)
qed

subsection \<open>The header checks, the legacy layout and the version parser\<close>

lemma first_load:
  assumes "readAsync b 0 20 = Some (d, n)"
  shows "loadAsync 20 (DataReader b) =
         (Inr (), \<lparr> buffer = b\<lparr>byteLength := n\<rparr>, byteOffset = 0, window = d, requests = [(0, 20)] \<rparr>)"
  using assms by (simp add: loadAsync_def DataReader_def)

lemmas run_simps = unpackBinaryAsync_def and_then_def bind_def loadAsync_def DataReader_def
  readUint32_def readString_def outcome_def issued_def memory_buffer_def range_buffer_def file_server_def
  le32_def uint32_le_def Binary_Magic_def ChunkFormat_JSON_def header_def container_def chunk_def

text \<open>
  C6, as the code has it. The unpacker first asks the byte source for 20 bytes
  (magic, version, length and the first chunk header, line 774) and only then
  compares the magic. When that read delivers at least the 4 magic bytes and
  they are not the magic, the run fails with the bad-magic error; the request
  for bytes 0 to 20 is the only one made, nothing is asked after the magic has
  been seen.
\<close>

theorem bad_magic:
  assumes "readAsync b 0 20 = Some (d, n)" and "4 \<le> length d"
    and "uint32_le (take 4 d) \<noteq> Binary_Magic"
  shows "outcome (unpackBinaryAsync pj (DataReader b)) =
           Some (Inl (UnexpectedMagic (uint32_le (take 4 d))))
       \<and> issued (unpackBinaryAsync pj (DataReader b)) = Some [(0, 20)]"
  using assms
  by (simp add: unpackBinaryAsync_def and_then_def first_load readUint32_def outcome_def issued_def)

theorem bad_magic_witness:
  "readAsync (memory_buffer glb_bad_magic) 0 20 = Some (take 20 glb_bad_magic, Number 22)
   \<and> uint32_le (take 4 (take 20 glb_bad_magic)) = 0
   \<and> outcome (unpackBinaryAsync Some (DataReader (memory_buffer glb_bad_magic))) =
       Some (Inl (UnexpectedMagic 0))
   \<and> issued (unpackBinaryAsync Some (DataReader (memory_buffer glb_bad_magic))) = Some [(0, 20)]"
proof -
  have rd: "readAsync (memory_buffer glb_bad_magic) 0 20 = Some (take 20 glb_bad_magic, Number 22)"
    by (simp add: memory_buffer_def glb_bad_magic_def header_def chunk_def)
  have l: "4 \<le> length (take 20 glb_bad_magic)"
    by (simp add: glb_bad_magic_def header_def chunk_def)
  have m: "uint32_le (take 4 (take 20 glb_bad_magic)) = 0"
    by (simp add: glb_bad_magic_def header_def le32_def uint32_le_def)
  then have ne: "uint32_le (take 4 (take 20 glb_bad_magic)) \<noteq> Binary_Magic"
    by (simp add: Binary_Magic_def)
  show ?thesis
    using bad_magic [where pj = Some, OF rd l ne] rd m by simp
qed

text \<open>
  C6 as written fails on the sample with the zeroed magic: the run ends with the
  bad-magic error, and the byte source has been asked for bytes 0 to 20, sixteen
  of them beyond the first 4.
\<close>

theorem bad_magic_reads_20_bytes:
  "issued (unpackBinaryAsync Some (DataReader (memory_buffer glb_bad_magic))) = Some [(0, 20)]
   \<and> outcome (unpackBinaryAsync Some (DataReader (memory_buffer glb_bad_magic))) =
       Some (Inl (UnexpectedMagic 0))"
  by (simp add: run_simps glb_bad_magic_def)

text \<open>
  C7, as the code has it. The declared length is compared with the
  \<^verbatim>\<open>byteLength\<close> that the byte source holds after the first read, whatever that
  number is, \<^verbatim>\<open>NaN\<close> included: there is no case in which the comparison is left
  out. When the first read delivers the 12 header bytes with the right magic
  and the declared length differs from that number, the run fails with the
  length-mismatch error.
\<close>

theorem length_mismatch:
  assumes "readAsync b 0 20 = Some (d, n)" and "12 \<le> length d"
    and "uint32_le (take 4 d) = Binary_Magic"
    and "Number (int (uint32_le (take 4 (drop 8 d)))) \<noteq> n"
  shows "outcome (unpackBinaryAsync pj (DataReader b)) =
           Some (Inl (LengthMismatch (uint32_le (take 4 (drop 8 d))) n))"
  using assms
  by (simp add: unpackBinaryAsync_def and_then_def first_load readUint32_def outcome_def)

theorem length_mismatch_witness:
  "readAsync (memory_buffer glb_wrong_length) 0 20 = Some (take 20 glb_wrong_length, Number 22)
   \<and> uint32_le (take 4 (drop 8 (take 20 glb_wrong_length))) = 23
   \<and> outcome (unpackBinaryAsync Some (DataReader (memory_buffer glb_wrong_length))) =
       Some (Inl (LengthMismatch 23 (Number 22)))"
proof -
  have rd: "readAsync (memory_buffer glb_wrong_length) 0 20 = Some (take 20 glb_wrong_length, Number 22)"
    by (simp add: memory_buffer_def glb_wrong_length_def header_def chunk_def)
  have l: "12 \<le> length (take 20 glb_wrong_length)"
    by (simp add: glb_wrong_length_def header_def chunk_def)
  have m: "uint32_le (take 4 (take 20 glb_wrong_length)) = Binary_Magic"
    by (simp add: glb_wrong_length_def header_def le32_def uint32_le_def Binary_Magic_def)
  have d: "uint32_le (take 4 (drop 8 (take 20 glb_wrong_length))) = 23"
    by (simp add: glb_wrong_length_def header_def le32_def uint32_le_def)
  then have ne: "Number (int (uint32_le (take 4 (drop 8 (take 20 glb_wrong_length))))) \<noteq> Number 22"
    by simp
  show ?thesis
    using length_mismatch [where pj = Some, OF rd l m ne] rd d by simp
qed

text \<open>
  C7 as written fails in both of its parts. Over range requests, a server that
  does not know the total size sends \<^verbatim>\<open>*\<close> for it; line 498 makes \<^verbatim>\<open>NaN\<close> of
  that, and line 791 finds the declared length of a valid container, 22,
  different from \<^verbatim>\<open>NaN\<close>: the length is not known, and the container is
  rejected instead of accepted. And a file that holds the 12 header bytes only,
  with a declared length that differs from its size, fails at the first read of
  20 bytes, before the lengths are compared.
\<close>

theorem unknown_length_is_checked:
  "outcome (unpackBinaryAsync Some (DataReader (range_buffer (file_server glb_json_only) NaN))) =
     Some (Inl (LengthMismatch 22 NaN))
   \<and> outcome (unpackBinaryAsync Some (DataReader (memory_buffer glb_header_only))) =
     Some (Inl SourceReadError)"
  by (simp add: run_simps glb_json_only_def glb_header_only_def)

text \<open>
  C5, as the code has it. When the first read delivers the 12 header bytes with
  the right magic and the right length, and the format version is neither 1 nor
  2, the run fails with the unsupported-version error. The byte source has been
  asked once, for bytes 0 to 20: the 12 header bytes and the 8 bytes after them.
\<close>

theorem unsupported_version:
  assumes "readAsync b 0 20 = Some (d, n)" and "12 \<le> length d"
    and "uint32_le (take 4 d) = Binary_Magic"
    and "Number (int (uint32_le (take 4 (drop 8 d)))) = n"
    and "uint32_le (take 4 (drop 4 d)) \<noteq> 1" and "uint32_le (take 4 (drop 4 d)) \<noteq> 2"
  shows "outcome (unpackBinaryAsync pj (DataReader b)) =
           Some (Inl (UnsupportedVersion (uint32_le (take 4 (drop 4 d)))))
       \<and> issued (unpackBinaryAsync pj (DataReader b)) = Some [(0, 20)]"
  using assms
  by (simp add: unpackBinaryAsync_def and_then_def first_load readUint32_def outcome_def issued_def)

theorem unsupported_version_witness:
  "readAsync (memory_buffer glb_version_3) 0 20 = Some (take 20 glb_version_3, Number 22)
   \<and> uint32_le (take 4 (drop 4 (take 20 glb_version_3))) = 3
   \<and> outcome (unpackBinaryAsync Some (DataReader (memory_buffer glb_version_3))) =
       Some (Inl (UnsupportedVersion 3))
   \<and> issued (unpackBinaryAsync Some (DataReader (memory_buffer glb_version_3))) = Some [(0, 20)]"
proof -
  have rd: "readAsync (memory_buffer glb_version_3) 0 20 = Some (take 20 glb_version_3, Number 22)"
    by (simp add: memory_buffer_def glb_version_3_def)
  have l: "12 \<le> length (take 20 glb_version_3)"
    by (simp add: glb_version_3_def)
  have m: "uint32_le (take 4 (take 20 glb_version_3)) = Binary_Magic"
    by (simp add: glb_version_3_def container_def header_def le32_def uint32_le_def Binary_Magic_def)
  have d: "Number (int (uint32_le (take 4 (drop 8 (take 20 glb_version_3))))) = Number 22"
    by (simp add: glb_version_3_def container_def header_def le32_def uint32_le_def)
  have v: "uint32_le (take 4 (drop 4 (take 20 glb_version_3))) = 3"
    by (simp add: glb_version_3_def container_def header_def le32_def uint32_le_def)
  then have ne: "uint32_le (take 4 (drop 4 (take 20 glb_version_3))) \<noteq> 1"
      "uint32_le (take 4 (drop 4 (take 20 glb_version_3))) \<noteq> 2"
    by simp_all
  show ?thesis
    using unsupported_version [where pj = Some, OF rd l m d ne] rd v by simp
qed

text \<open>
  C5 as written fails on the sample of format version 3: the run ends with the
  unsupported-version error, and the byte source has been asked for bytes 0 to
  20, eight of them beyond the 12-byte header.
\<close>

theorem unsupported_version_reads_20_bytes:
  "issued (unpackBinaryAsync Some (DataReader (memory_buffer glb_version_3))) = Some [(0, 20)]
   \<and> outcome (unpackBinaryAsync Some (DataReader (memory_buffer glb_version_3))) =
       Some (Inl (UnsupportedVersion 3))"
  by (simp add: run_simps glb_version_3_def)

text \<open>
  C1, the code at a legacy container with a JSON text of N = 2 bytes and M = 3
  trailing bytes, and at one with no trailing byte. \<^verbatim>\<open>bodyLength\<close> is taken
  before the JSON text is consumed (line 828), so it counts the text as well:
  on a reader that holds the whole file the blob has \<^verbatim>\<open>byteLength\<close> N + M = 5,
  not 3, its full range leaves the source, and with no trailing byte the blob is
  there, with \<^verbatim>\<open>byteLength\<close> 2. From a fresh reader the legacy path reads the
  JSON text without having asked for it (there is no \<^verbatim>\<open>loadAsync\<close> on this path,
  the chunked path has one), which the reader of the specification answers with
  a fault.
\<close>

theorem legacy_body_length:
  "fst (unpackBinaryV1Async Some (materialized glb_legacy)) =
     Inr \<lparr> json = ''{}'', bin = Some (bin_view (memory_buffer glb_legacy) 22 (Number 5)) \<rparr>
   \<and> readAsync (bin_view (memory_buffer glb_legacy) 22 (Number 5)) 0 5 = None
   \<and> fst (unpackBinaryV1Async Some (materialized glb_legacy_no_body)) =
     Inr \<lparr> json = ''{}'', bin = Some (bin_view (memory_buffer glb_legacy_no_body) 22 (Number 2)) \<rparr>
   \<and> outcome (unpackBinaryAsync Some (DataReader (memory_buffer glb_legacy))) =
     Some (Inl ReaderFault)"
proof -
  have l: "length glb_legacy = 25" "length glb_legacy_no_body = 22"
    by (simp_all add: glb_legacy_def glb_legacy_no_body_def)
  have f1: "take 4 (drop 12 glb_legacy) = le32 2" "take 4 (drop 16 glb_legacy) = le32 0"
    "take 2 (drop 20 glb_legacy) = [0x7B, 0x7D]"
    by (simp_all add: glb_legacy_def container_def header_def)
  have f2: "take 4 (drop 12 glb_legacy_no_body) = le32 2"
    "take 4 (drop 16 glb_legacy_no_body) = le32 0"
    "take 2 (drop 20 glb_legacy_no_body) = [0x7B, 0x7D]"
    by (simp_all add: glb_legacy_no_body_def container_def header_def)
  have u: "uint32_le (le32 2) = 2" "uint32_le (le32 0) = 0"
    by (simp_all add: uint32_le_le32)
  have a: "fst (unpackBinaryV1Async Some (materialized glb_legacy)) =
     Inr \<lparr> json = ''{}'', bin = Some (bin_view (memory_buffer glb_legacy) 22 (Number 5)) \<rparr>"
    by (simp add: unpackBinaryV1Async_def bind_def readUint32_def readString_def parseJson_def
        materialized_def l f1 u decode_braces memory_buffer_def minus_offset_def)
  have b: "readAsync (bin_view (memory_buffer glb_legacy) 22 (Number 5)) 0 5 = None"
    by (simp add: bin_view_def memory_buffer_def l)
  have c: "fst (unpackBinaryV1Async Some (materialized glb_legacy_no_body)) =
     Inr \<lparr> json = ''{}'', bin = Some (bin_view (memory_buffer glb_legacy_no_body) 22 (Number 2)) \<rparr>"
    by (simp add: unpackBinaryV1Async_def bind_def readUint32_def readString_def parseJson_def
        materialized_def l f2 u decode_braces memory_buffer_def minus_offset_def)
  have d: "outcome (unpackBinaryAsync Some (DataReader (memory_buffer glb_legacy))) =
     Some (Inl ReaderFault)"
    by (simp add: run_simps unpackBinaryV1Async_def glb_legacy_def minus_offset_def)
  show ?thesis
    using a b c d by simp
qed

text \<open>
  C9. The version parser gives \<open>{1, 0}\<close> for the two legacy strings and
  \<open>{2, 0}\<close> for \<^verbatim>\<open>2.0\<close>, and nothing for \<^verbatim>\<open>garbage\<close>. It gives a pair exactly
  for the strings that start with digits, a dot and digits; the pair holds the
  number values of the decimal values of the two maximal runs of digits. The
  number value of \<open>n\<close> is \<open>n\<close> itself below \<open>2 ^ 53\<close>. From there on it is the
  nearest double: for \<open>n\<close> of \<open>53 + e\<close> bits a multiple of \<open>2 ^ e\<close>, at most half
  of \<open>2 ^ e\<close> away from \<open>n\<close>, and of even quotient when exactly half away. It is
  \<^verbatim>\<open>Infinity\<close> from \<open>2 ^ 1024 - 2 ^ 970\<close> on, and never \<^verbatim>\<open>NaN\<close>.
\<close>

theorem parseVersion_spec:
  "parseVersion ''1.0'' = Some \<lparr> major = Number 1, minor = Number 0 \<rparr>
   \<and> parseVersion ''1.0.1'' = Some \<lparr> major = Number 1, minor = Number 0 \<rparr>
   \<and> parseVersion ''2.0'' = Some \<lparr> major = Number 2, minor = Number 0 \<rparr>
   \<and> parseVersion ''garbage'' = None
   \<and> (leading_version s \<longleftrightarrow> parseVersion s \<noteq> None)
   \<and> (digit_run a \<and> digit_run b \<and> (rest = [] \<or> hd rest \<notin> set ''0123456789'') \<longrightarrow>
      parseVersion (a @ ''.'' @ b @ rest) =
        Some \<lparr> major = toNumber (decimal_value a), minor = toNumber (decimal_value b) \<rparr>)
   \<and> (n < 2 ^ 53 \<longrightarrow> toNumber n = Number (int n))
   \<and> (2 ^ (52 + e) \<le> n \<and> n < 2 ^ (53 + e) \<and> toNumber n = Number v \<longrightarrow>
        2 ^ e dvd v \<and> 2 * \<bar>v - int n\<bar> \<le> 2 ^ e \<and> (2 * \<bar>v - int n\<bar> = 2 ^ e \<longrightarrow> even (v div 2 ^ e)))
   \<and> (toNumber n = Infinity \<longleftrightarrow> 2 ^ 1024 - 2 ^ 970 \<le> n)
   \<and> toNumber n \<noteq> NaN"
proof -
  have ev: "parseVersion ''1.0'' = Some \<lparr> major = Number 1, minor = Number 0 \<rparr>"
    "parseVersion ''1.0.1'' = Some \<lparr> major = Number 1, minor = Number 0 \<rparr>"
    "parseVersion ''2.0'' = Some \<lparr> major = Number 2, minor = Number 0 \<rparr>"
    "parseVersion ''garbage'' = None"
    by (simp_all add: parseVersion_def match_version_def isDigit_def parseInt_def toNumber_exact)
  have legacy: "match_version ''1.0'' = Some (''1'', ''0'')"
    "match_version ''1.0.1'' = Some (''1'', ''0'')"
    "parseInt ''1'' = Number 1" "parseInt ''0'' = Number 0"
    by (simp_all add: match_version_def isDigit_def parseInt_def toNumber_exact)
  have iff: "leading_version s \<longleftrightarrow> parseVersion s \<noteq> None"
  proof
    assume "leading_version s"
    then obtain x y where "match_version s = Some (x, y)"
      using leading_version_match by blast
    then show "parseVersion s \<noteq> None"
      by (simp add: parseVersion_def)
  next
    assume p: "parseVersion s \<noteq> None"
    have "\<exists>x y. match_version s = Some (x, y)"
    proof (cases "s = ''1.0'' \<or> s = ''1.0.1''")
      case True
      then show ?thesis using legacy(1,2) by auto
    next
      case False
      then show ?thesis
        using p by (auto simp: parseVersion_def split: option.splits)
    qed
    then obtain x y where m: "match_version s = Some (x, y)"
      by blast
    from match_version_Some [OF m] show "leading_version s"
      unfolding leading_version_def by blast
  qed
  have ex: "parseVersion (a @ ''.'' @ b @ rest) =
      Some \<lparr> major = toNumber (decimal_value a), minor = toNumber (decimal_value b) \<rparr>"
    if h: "digit_run a" "digit_run b" "rest = [] \<or> hd rest \<notin> set ''0123456789''"
  proof -
    have m: "match_version (a @ ''.'' @ b @ rest) = Some (a, b)"
      using match_pattern [OF h] .
    have v: "parseInt a = toNumber (decimal_value a)" "parseInt b = toNumber (decimal_value b)"
      using h(1,2) by (simp_all add: parseInt_run)
    show ?thesis
    proof (cases "a @ ''.'' @ b @ rest = ''1.0'' \<or> a @ ''.'' @ b @ rest = ''1.0.1''")
      case True
      then have "a = ''1'' \<and> b = ''0''"
        using m legacy(1,2) by auto
      then show ?thesis
        using True legacy(3,4) v by (auto simp: parseVersion_def)
    next
      case False
      then show ?thesis
        using m v by (simp add: parseVersion_def)
    qed
  qed
  have exact: "n < 2 ^ 53 \<longrightarrow> toNumber n = Number (int n)"
    using toNumber_exact by blast
  have near: "2 ^ (52 + e) \<le> n \<and> n < 2 ^ (53 + e) \<and> toNumber n = Number v \<longrightarrow>
        2 ^ e dvd v \<and> 2 * \<bar>v - int n\<bar> \<le> 2 ^ e \<and> (2 * \<bar>v - int n\<bar> = 2 ^ e \<longrightarrow> even (v div 2 ^ e))"
    using toNumber_nearest by blast
  have inf: "toNumber n = Infinity \<longleftrightarrow> 2 ^ 1024 - 2 ^ 970 \<le> n"
    by (rule toNumber_Infinity)
  have nan: "toNumber n \<noteq> NaN"
    by (simp add: toNumber_def Let_def)
  show ?thesis
    using ev iff ex exact near inf nan by blast
qed

theorem parseVersion_spec_witness:
  "leading_version ''12.34-beta''
   \<and> parseVersion ''12.34-beta'' = Some \<lparr> major = Number 12, minor = Number 34 \<rparr>
   \<and> \<not> leading_version ''garbage''
   \<and> toNumber 9007199254740995 = Number 9007199254740996
   \<and> 2 * \<bar>9007199254740996 - int 9007199254740995\<bar> = (2::int) ^ 1
   \<and> even (9007199254740996 div (2::int) ^ 1)
   \<and> toNumber (2 ^ 1024 - 2 ^ 970) = Infinity"
proof -
  have d: "digit_run ''12''" "digit_run ''34''" "hd ''-beta'' \<notin> set ''0123456789''"
    by (simp_all add: digit_run_def)
  have n12: "toNumber 12 = Number 12"
    using parseVersion_spec [where s = "''garbage''" and a = "''12''" and b = "''34''"
        and rest = "''-beta''" and n = 12 and e = 1 and v = 9007199254740996]
    by simp
  have n34: "toNumber 34 = Number 34"
    using parseVersion_spec [where s = "''garbage''" and a = "''12''" and b = "''34''"
        and rest = "''-beta''" and n = 34 and e = 1 and v = 9007199254740996]
    by simp
  have "parseVersion (''12'' @ ''.'' @ ''34'' @ ''-beta'') =
      Some \<lparr> major = toNumber (decimal_value ''12''), minor = toNumber (decimal_value ''34'') \<rparr>"
    using parseVersion_spec [where s = "''12.34-beta''" and a = "''12''" and b = "''34''"
        and rest = "''-beta''" and n = 12 and e = 1 and v = 9007199254740996] d
    by blast
  then have p: "parseVersion ''12.34-beta'' = Some \<lparr> major = Number 12, minor = Number 34 \<rparr>"
    by (simp add: digit_value_def n12 n34)
  have l: "leading_version ''12.34-beta''"
    using parseVersion_spec [where s = "''12.34-beta''" and a = "''12''" and b = "''34''"
        and rest = "''-beta''" and n = 12 and e = 1 and v = 9007199254740996] p
    by simp
  have g: "\<not> leading_version ''garbage''"
    using parseVersion_spec [where s = "''garbage''" and a = "''12''" and b = "''34''"
        and rest = "''-beta''" and n = 12 and e = 1 and v = 9007199254740996]
    by simp
  have b: "(2::nat) ^ (52 + 1) \<le> 9007199254740995" "(9007199254740995::nat) < 2 ^ (53 + 1)"
    by simp_all
  have r: "(2::int) ^ 1 dvd 9007199254740996 \<and> 2 * \<bar>9007199254740996 - int 9007199254740995\<bar> \<le> 2 ^ 1
      \<and> (2 * \<bar>9007199254740996 - int 9007199254740995\<bar> = 2 ^ 1 \<longrightarrow> even (9007199254740996 div (2::int) ^ 1))"
    using parseVersion_spec [where s = "''garbage''" and a = "''12''" and b = "''34''"
        and rest = "''-beta''" and n = 9007199254740995 and e = 1 and v = 9007199254740996]
      b toNumber_2_53_3
    by blast
  have t: "2 * \<bar>9007199254740996 - int 9007199254740995\<bar> = (2::int) ^ 1"
    by simp
  have i: "toNumber (2 ^ 1024 - 2 ^ 970) = Infinity"
    using parseVersion_spec [where s = "''garbage''" and a = "''12''" and b = "''34''"
        and rest = "''-beta''" and n = "2 ^ 1024 - 2 ^ 970" and e = 1 and v = 9007199254740996]
    by simp
  show ?thesis
    using l p g toNumber_2_53_3 t r i by blast
qed

text \<open>
  The major number of a long run of digits is not the number that is written:
  \<^verbatim>\<open>9007199254740993\<close> is \<open>2 ^ 53 + 1\<close>, which no double holds, and the parser
  gives \<^verbatim>\<open>9007199254740992\<close>.
\<close>

theorem long_major_is_rounded:
  "decimal_value ''9007199254740993'' = 9007199254740993
   \<and> parseVersion ''9007199254740993.0'' =
       Some \<lparr> major = Number 9007199254740992, minor = Number 0 \<rparr>"
  by (simp add: digit_value_def parseVersion_def match_version_def isDigit_def parseInt_def
      toNumber_exact toNumber_2_53_1)

end
